theory Spec2Isabelle
  imports Main "HOL-Library.Multiset" "HOL-Library.Sublist" "HOL-Library.List_Lexorder"
    "HOL-Library.Char_ord"
begin

unbundle bit_operations_syntax

section \<open>Python strings and lists\<close>

text \<open>
  A Python \<open>str\<close> is modelled as a \<open>string\<close>: every \<open>char\<close> stands for one code point
  below 256, so \<open>length\<close> is Python's \<open>len\<close> on such strings. Python integers are \<open>int\<close>.
\<close>

text \<open>\<open>str.isspace\<close> on one character, for the code points below 256.\<close>

definition py_isspace :: "char \<Rightarrow> bool" where
  "py_isspace c = (c \<in> {CHR 0x09, CHR 0x0A, CHR 0x0B, CHR 0x0C, CHR 0x0D, CHR 0x1C, CHR 0x1D,
                          CHR 0x1E, CHR 0x1F, CHR 0x20, CHR 0x85, CHR 0xA0})"

text \<open>\<open>s.split()\<close>: the maximal runs of non-whitespace characters, in order.\<close>

fun split_ws :: "string \<Rightarrow> string \<Rightarrow> string list" where
  "split_ws cur [] = (if cur = [] then [] else [cur])"
| "split_ws cur (c # cs) =
     (if py_isspace c then (if cur = [] then split_ws [] cs else cur # split_ws [] cs)
      else split_ws (cur @ [c]) cs)"

definition py_split :: "string \<Rightarrow> string list" where
  "py_split s = split_ws [] s"

text \<open>\<open>s.split(sep)\<close> for a one-character separator: always at least one piece.\<close>

fun split_on :: "char \<Rightarrow> string \<Rightarrow> string \<Rightarrow> string list" where
  "split_on sep cur [] = [cur]"
| "split_on sep cur (c # cs) =
     (if c = sep then cur # split_on sep [] cs else split_on sep (cur @ [c]) cs)"

definition py_split_char :: "char \<Rightarrow> string \<Rightarrow> string list" where
  "py_split_char sep s = split_on sep [] s"

text \<open>\<open>s.strip()\<close>.\<close>

definition py_strip :: "string \<Rightarrow> string" where
  "py_strip s = rev (dropWhile py_isspace (rev (dropWhile py_isspace s)))"

text \<open>\<open>sep.join(ws)\<close>.\<close>

fun py_join :: "string \<Rightarrow> string list \<Rightarrow> string" where
  "py_join sep [] = []"
| "py_join sep [w] = w"
| "py_join sep (w # v # ws) = w @ sep @ py_join sep (v # ws)"

text \<open>\<open>xs[i:j]\<close> with Python's treatment of negative and out-of-range bounds.\<close>

definition py_slice :: "'a list \<Rightarrow> int \<Rightarrow> int \<Rightarrow> 'a list" where
  "py_slice xs i j =
     (let n = int (length xs);
          i' = (if i < 0 then max (i + n) 0 else min i n);
          j' = (if j < 0 then max (j + n) 0 else min j n)
      in take (nat (j' - i')) (drop (nat i') xs))"

text \<open>The decimal text of an integer, as an f-string prints it.\<close>

definition digit_char :: "nat \<Rightarrow> char" where
  "digit_char n = ''0123456789'' ! (n mod 10)"

fun show_nat :: "nat \<Rightarrow> string" where
  "show_nat n = (if n < 10 then [digit_char n] else show_nat (n div 10) @ [digit_char n])"

declare show_nat.simps [simp del]

definition show_int :: "int \<Rightarrow> string" where
  "show_int i = (if i < 0 then CHR ''-'' # show_nat (nat (- i)) else show_nat (nat i))"

section \<open>SHA-1 (\<open>hashlib.sha1\<close>), on 32-bit words written as naturals modulo \<open>2 ^ 32\<close>\<close>

definition rotl32 :: "nat \<Rightarrow> nat \<Rightarrow> nat" where
  "rotl32 n x = (x * 2 ^ n) mod 4294967296 + x div 2 ^ (32 - n)"

definition add32 :: "nat \<Rightarrow> nat \<Rightarrow> nat" where
  "add32 x y = (x + y) mod 4294967296"

definition sha1_f :: "nat \<Rightarrow> nat \<Rightarrow> nat \<Rightarrow> nat \<Rightarrow> nat" where
  "sha1_f t b c d =
     (if t < 20 then (b AND c) OR ((4294967295 - b) AND d)
      else if t < 40 then b XOR c XOR d
      else if t < 60 then (b AND c) OR (b AND d) OR (c AND d)
      else b XOR c XOR d)"

definition sha1_k :: "nat \<Rightarrow> nat" where
  "sha1_k t =
     (if t < 20 then 0x5A827999 else if t < 40 then 0x6ED9EBA1
      else if t < 60 then 0x8F1BBCDC else 0xCA62C1D6)"

type_synonym sha1_state = "nat \<times> nat \<times> nat \<times> nat \<times> nat"

text \<open>One round; the message schedule is kept as a sliding window of sixteen words.\<close>

fun sha1_round :: "sha1_state \<times> nat list \<Rightarrow> nat \<Rightarrow> sha1_state \<times> nat list" where
  "sha1_round ((a, b, c, d, e), w) t =
     ((add32 (add32 (add32 (add32 (rotl32 5 a) (sha1_f t b c d)) e) (sha1_k t)) (hd w),
       a, rotl32 30 b, c, d),
      tl w @ [rotl32 1 (w ! 13 XOR w ! 8 XOR w ! 2 XOR w ! 0)])"

function sha1_rounds :: "nat \<Rightarrow> sha1_state \<times> nat list \<Rightarrow> sha1_state \<times> nat list" where
  "sha1_rounds t s = (if 80 \<le> t then s else sha1_rounds (t + 1) (sha1_round s t))"
  by pat_completeness auto
termination
  by (relation "measure (\<lambda>(t, s). 80 - t)") auto

declare sha1_rounds.simps [simp del]

definition be32 :: "nat list \<Rightarrow> nat" where
  "be32 bs = foldl (\<lambda>acc b. acc * 256 + b) 0 bs"

fun chop :: "nat \<Rightarrow> 'a list \<Rightarrow> 'a list list" where
  "chop n [] = []"
| "chop n (x # xs) = (if n = 0 then [] else take n (x # xs) # chop n (drop n (x # xs)))"

fun sha1_block :: "sha1_state \<Rightarrow> nat list \<Rightarrow> sha1_state" where
  "sha1_block (h0, h1, h2, h3, h4) blk =
     (case fst (sha1_rounds 0 ((h0, h1, h2, h3, h4), map be32 (chop 4 blk))) of
        (a, b, c, d, e) \<Rightarrow> (add32 h0 a, add32 h1 b, add32 h2 c, add32 h3 d, add32 h4 e))"

definition be64 :: "nat \<Rightarrow> nat list" where
  "be64 n = map (\<lambda>k. (n div 256 ^ k) mod 256) [7, 6, 5, 4, 3, 2, 1, 0]"

definition sha1_pad :: "nat list \<Rightarrow> nat list" where
  "sha1_pad m = m @ [128] @ replicate ((119 - length m mod 64) mod 64) 0 @ be64 (8 * length m)"

definition hex_digit :: "nat \<Rightarrow> char" where
  "hex_digit n = ''0123456789abcdef'' ! (n mod 16)"

definition hex32 :: "nat \<Rightarrow> string" where
  "hex32 w = map (\<lambda>k. hex_digit (w div 16 ^ k)) [7, 6, 5, 4, 3, 2, 1, 0]"

text \<open>\<open>hashlib.sha1(m).hexdigest()\<close> on a byte string.\<close>

definition sha1_bytes :: "nat list \<Rightarrow> string" where
  "sha1_bytes m =
     (case foldl sha1_block (0x67452301, 0xEFCDAB89, 0x98BADCFE, 0x10325476, 0xC3D2E1F0)
             (chop 64 (sha1_pad m)) of
        (h0, h1, h2, h3, h4) \<Rightarrow> concat (map hex32 [h0, h1, h2, h3, h4]))"

text \<open>\<open>s.encode('utf-8')\<close> for code points below 256.\<close>

definition utf8_encode :: "string \<Rightarrow> nat list" where
  "utf8_encode s =
     concat (map (\<lambda>c. let n = (of_char c :: nat)
                       in if n < 128 then [n] else [192 + n div 64, 128 + n mod 64]) s)"

subsection \<open>\<open>utils.py\<close>\<close>

definition sha1 :: "string \<Rightarrow> string" where
  "sha1 s = sha1_bytes (utf8_encode s)"

section \<open>\<open>schema.py\<close>: the records\<close>

record citation =
  ci_doc_id :: string
  ci_source_path :: string
  ci_text_excerpt :: string
  ci_page :: "int option"
  ci_line :: "int option"

record chunk =
  ch_id :: string
  ch_doc_id :: string
  ch_ordinal :: int
  ch_text :: string
  ch_source_path :: string
  ch_page :: "int option"
  ch_line_start :: "int option"
  ch_line_end :: "int option"

text \<open>The document dictionary that \<open>loader.py\<close> produces.\<close>

datatype doc_kind = Pdf | Txt

record document =
  doc_path :: string
  doc_kind :: doc_kind
  doc_text :: string
  doc_pages :: "string list option"
  doc_lines :: "string list option"
  doc_bytes :: nat

section \<open>\<open>chunker.py\<close>\<close>

text \<open>
  The \<open>while\<close> loop of \<open>chunk_doc\<close>, with its local variables \<open>start\<close>, \<open>ordinal\<close> and
  \<open>chunks\<close> as arguments. The loop may run forever; \<open>None\<close> stands for not returning.
\<close>

partial_function (option) chunk_loop ::
  "string list \<Rightarrow> string \<Rightarrow> string \<Rightarrow> int \<Rightarrow> int \<Rightarrow> int \<Rightarrow> int \<Rightarrow> chunk list \<Rightarrow> chunk list option"
where
  "chunk_loop words did source_path sz overlap start ordinal chunks =
     (if start < int (length words) then
        (let stop = min (start + sz) (int (length words));
             chunk_words = py_slice words start stop;
             chunk_text = py_join '' '' chunk_words;
             chunk_id = sha1 (did @ '':'' @ show_int ordinal);
             chunks' = chunks @ [\<lparr>ch_id = chunk_id, ch_doc_id = did, ch_ordinal = ordinal,
                                   ch_text = chunk_text, ch_source_path = source_path,
                                   ch_page = None, ch_line_start = None, ch_line_end = None\<rparr>]
         in if int (length words) \<le> stop then Some chunks'
            else chunk_loop words did source_path sz overlap (stop - overlap) (ordinal + 1) chunks')
      else Some chunks)"

definition chunk_doc :: "document \<Rightarrow> string \<Rightarrow> int \<Rightarrow> int \<Rightarrow> chunk list option" where
  "chunk_doc doc did sz overlap =
     (let text = doc_text doc;
          source_path = doc_path doc;
          words = py_split text
      in if length words = 0 then Some []
         else if int (length words) \<le> sz then
           Some [\<lparr>ch_id = sha1 (did @ '':1''), ch_doc_id = did, ch_ordinal = 1,
                  ch_text = py_join '' '' words, ch_source_path = source_path,
                  ch_page = None, ch_line_start = None, ch_line_end = None\<rparr>]
         else chunk_loop words did source_path sz overlap 0 1 [])"

section \<open>Paths (\<open>pathlib\<close>, POSIX flavour)\<close>

text \<open>The components of a path: empty components and \<open>.\<close> are dropped when a path is parsed.\<close>

definition path_parts :: "string \<Rightarrow> string list" where
  "path_parts p = filter (\<lambda>c. c \<noteq> [] \<and> c \<noteq> ''.'') (py_split_char CHR ''/'' p)"

definition path_name :: "string \<Rightarrow> string" where
  "path_name p = (let parts = path_parts p in if parts = [] then [] else last parts)"

fun rfind_from :: "char \<Rightarrow> string \<Rightarrow> nat \<Rightarrow> int \<Rightarrow> int" where
  "rfind_from c [] i found = found"
| "rfind_from c (x # xs) i found = rfind_from c xs (Suc i) (if x = c then int i else found)"

text \<open>\<open>s.rfind(c)\<close>: the last index of \<open>c\<close>, or \<open>-1\<close>.\<close>

definition py_rfind :: "char \<Rightarrow> string \<Rightarrow> int" where
  "py_rfind c s = rfind_from c s 0 (- 1)"

definition path_suffix :: "string \<Rightarrow> string" where
  "path_suffix p =
     (let name = path_name p; i = py_rfind CHR ''.'' name
      in if 0 < i \<and> i < int (length name) - 1 then drop (nat i) name else [])"

definition path_stem :: "string \<Rightarrow> string" where
  "path_stem p =
     (let name = path_name p; i = py_rfind CHR ''.'' name
      in if 0 < i \<and> i < int (length name) - 1 then take (nat i) name else name)"

text \<open>
  \<open>Path(path).resolve()\<close> depends on the process: its working directory is part of the
  environment. The model is the one of a file system without symbolic links: a relative path
  is joined to the working directory, \<open>..\<close> removes the component before it.
\<close>

record env =
  cwd :: string

definition resolve_parts :: "string list \<Rightarrow> string list \<Rightarrow> string list" where
  "resolve_parts base parts =
     foldl (\<lambda>acc c. if c = ''..'' then butlast acc else acc @ [c]) base parts"

subsection \<open>\<open>utils.py\<close>: \<open>canon\<close>\<close>

definition canon :: "env \<Rightarrow> string \<Rightarrow> string" where
  "canon e p =
     (let base = (if p \<noteq> [] \<and> hd p = CHR ''/'' then [] else resolve_parts [] (path_parts (cwd e)))
      in CHR ''/'' # py_join ''/'' (resolve_parts base (path_parts p)))"

section \<open>Regular expressions used by the extractors\<close>

definition is_upper :: "char \<Rightarrow> bool" where
  "is_upper c = (let n = (of_char c :: nat) in 65 \<le> n \<and> n \<le> 90)"

definition is_lower :: "char \<Rightarrow> bool" where
  "is_lower c = (let n = (of_char c :: nat) in 97 \<le> n \<and> n \<le> 122)"

text \<open>\<open>\w\<close> of a \<open>str\<close> pattern, for the code points below 256: alphanumeric or underscore.\<close>

definition is_word :: "char \<Rightarrow> bool" where
  "is_word c =
     (let n = (of_char c :: nat)
      in (48 \<le> n \<and> n \<le> 57) \<or> (65 \<le> n \<and> n \<le> 90) \<or> n = 95 \<or> (97 \<le> n \<and> n \<le> 122)
         \<or> n = 170 \<or> n = 178 \<or> n = 179 \<or> n = 181 \<or> n = 185 \<or> n = 186
         \<or> (188 \<le> n \<and> n \<le> 190) \<or> (192 \<le> n \<and> n \<le> 214) \<or> (216 \<le> n \<and> n \<le> 246)
         \<or> 248 \<le> n)"

text \<open>
  \<open>re.findall(r'\b[A-Z]{2,}\b', text)\<close>. The flag says whether the character before the
  current position is a word character. A run of capitals that is followed by a word character
  matches nowhere: every shorter run ends before a capital.
\<close>

function scan_acronyms :: "bool \<Rightarrow> string \<Rightarrow> string list" where
  "scan_acronyms prevw [] = []"
| "scan_acronyms prevw (c # cs) =
     (if \<not> prevw \<and> is_upper c \<and> takeWhile is_upper cs \<noteq> []
         \<and> (dropWhile is_upper cs = [] \<or> \<not> is_word (hd (dropWhile is_upper cs)))
      then (c # takeWhile is_upper cs) # scan_acronyms True (dropWhile is_upper cs)
      else scan_acronyms (is_word c) cs)"
  by pat_completeness auto
termination
  by (relation "measure (\<lambda>(p, s). length s)") (auto simp: le_imp_less_Suc length_dropWhile_le)

text \<open>\<open>[A-Z][a-z]+\<close> at the start of a string: the word and what follows it.\<close>

definition cap_word :: "string \<Rightarrow> (string \<times> string) option" where
  "cap_word s =
     (case s of [] \<Rightarrow> None
      | c # cs \<Rightarrow> if is_upper c \<and> takeWhile is_lower cs \<noteq> []
                  then Some (c # takeWhile is_lower cs, dropWhile is_lower cs) else None)"

text \<open>The greedy iterations of \<open>(?:\s+[A-Z][a-z]+)*\<close>: the text of each, and what follows.\<close>

function cap_groups :: "string \<Rightarrow> string list \<times> string" where
  "cap_groups s =
     (if takeWhile py_isspace s = [] then ([], s)
      else case cap_word (dropWhile py_isspace s) of
             None \<Rightarrow> ([], s)
           | Some (w, r) \<Rightarrow> (case cap_groups r of
                               (gs, r') \<Rightarrow> ((takeWhile py_isspace s @ w) # gs, r')))"
  by pat_completeness auto
termination
proof (relation "measure length", goal_cases)
  case 1
  show ?case by simp
next
  case (2 s x2 w r)
  have "length r < length (dropWhile py_isspace s)"
    using 2 by (auto simp: cap_word_def le_imp_less_Suc length_dropWhile_le
                     split: list.splits if_splits)
  also have "\<dots> \<le> length s" by (rule length_dropWhile_le)
  finally show ?case by simp
qed

declare cap_groups.simps [simp del]

text \<open>
  \<open>re.findall(r'\b[A-Z][a-z]+(?:\s+[A-Z][a-z]+)*\b', text)\<close>. When the greedy match ends
  before a word character, the only shorter match that ends at a word boundary leaves out the
  last iteration of the group.
\<close>

function scan_entities :: "bool \<Rightarrow> string \<Rightarrow> string list" where
  "scan_entities prevw [] = []"
| "scan_entities prevw (c # cs) =
     (if prevw then scan_entities (is_word c) cs
      else case cap_word (c # cs) of
             None \<Rightarrow> scan_entities (is_word c) cs
           | Some (w, r) \<Rightarrow>
               (case cap_groups r of
                  (gs, r') \<Rightarrow>
                    if r' = [] \<or> \<not> is_word (hd r') then (w @ concat gs) # scan_entities True r'
                    else if gs = [] then scan_entities (is_word c) cs
                    else (w @ concat (butlast gs)) # scan_entities True (last gs @ r')))"
  by pat_completeness auto
termination
proof -
  have cap_word_length: "length r < length s" if "cap_word s = Some (w, r)" for s w r
    using that
    by (auto simp: cap_word_def le_imp_less_Suc length_dropWhile_le split: list.splits if_splits)
  have cap_groups_length: "length (concat gs) + length r = length s"
    if "cap_groups s = (gs, r)" for s gs r
    using that
  proof (induction s arbitrary: gs r rule: cap_groups.induct)
    case (1 s)
    show ?case
    proof (cases "takeWhile py_isspace s = []")
      case True
      with 1(2) show ?thesis by (simp add: cap_groups.simps)
    next
      case False
      show ?thesis
      proof (cases "cap_word (dropWhile py_isspace s)")
        case None
        with False 1(2) show ?thesis by (simp add: cap_groups.simps)
      next
        case (Some wr)
        obtain w r0 where wr: "wr = (w, r0)" by (cases wr)
        obtain gs0 r1 where g: "cap_groups r0 = (gs0, r1)" by (cases "cap_groups r0")
        from 1(1)[OF False Some[unfolded wr] refl g]
        have ih: "length (concat gs0) + length r1 = length r0" .
        from Some wr have "length w + length r0 = length (dropWhile py_isspace s)"
          by (auto simp: cap_word_def split: list.splits if_splits)
             (metis length_append takeWhile_dropWhile_id)
        moreover have "length (takeWhile py_isspace s) + length (dropWhile py_isspace s) = length s"
          by (metis length_append takeWhile_dropWhile_id)
        moreover from False Some wr g 1(2) have "gs = (takeWhile py_isspace s @ w) # gs0" "r = r1"
          by (simp_all add: cap_groups.simps)
        ultimately show ?thesis using ih by simp
      qed
    qed
  qed
  show ?thesis
  proof (relation "measure (\<lambda>(p, s). length s)", goal_cases)
    case 1
    show ?case by simp
  next
    case 2
    then show ?case by simp
  next
    case 3
    then show ?case by simp
  next
    case (4 prevw c cs x2 w r gs r')
    then have "cap_word (c # cs) = Some (w, r)" "cap_groups r = (gs, r')"
      by simp_all
    then have "length r < length (c # cs)" "length (concat gs) + length r' = length r"
      by (auto dest: cap_word_length cap_groups_length)
    then show ?case by simp
  next
    case 5
    then show ?case by simp
  next
    case (6 prevw c cs x2 w r gs r')
    then have "cap_word (c # cs) = Some (w, r)" "cap_groups r = (gs, r')"
      by simp_all
    then have a: "length r < length (c # cs)" "length (concat gs) + length r' = length r"
      by (auto dest: cap_word_length cap_groups_length)
    from 6 have "gs \<noteq> []" by simp
    then have "concat gs = concat (butlast gs) @ last gs"
      by (metis append_butlast_last_id concat.simps(1) concat.simps(2) concat_append append_Nil2)
    then have "length (last gs) \<le> length (concat gs)" by simp
    with a show ?case by simp
  qed
qed

declare scan_acronyms.simps [simp del] scan_entities.simps [simp del]

section \<open>Knowledge cards\<close>

text \<open>
  \<open>acronyms\<close> and \<open>entities\<close> are built with \<open>list(set(...))\<close>: a list that holds every
  element of the set once, in an order that Python does not fix. They are kept as sets.
\<close>

record knowledge_card =
  kc_id :: string
  kc_title :: string
  kc_date :: "string option"
  kc_source_path :: string
  kc_facts :: "string list"
  kc_acronyms :: "string set"
  kc_entities :: "string set"
  kc_citations :: "citation list"

subsection \<open>\<open>cli.py\<close>: \<open>build_knowledge_card\<close>\<close>

definition build_knowledge_card :: "env \<Rightarrow> document \<Rightarrow> knowledge_card" where
  "build_knowledge_card e doc =
     (let doc_id = sha1 (canon e (doc_path doc) @ '':'' @ show_nat (doc_bytes doc));
          text = doc_text doc;
          title = path_stem (doc_path doc);
          sentences = filter (\<lambda>s. s \<noteq> []) (map py_strip (py_split_char CHR ''.'' text));
          facts = filter (\<lambda>s. 20 < length s) (take 5 sentences);
          acronyms = set (scan_acronyms False text);
          entities = set (scan_entities False text);
          citation = \<lparr>ci_doc_id = doc_id, ci_source_path = doc_path doc,
                      ci_text_excerpt = (if 200 < length text then take 200 text @ ''...'' else text),
                      ci_page = None, ci_line = None\<rparr>
      in \<lparr>kc_id = doc_id, kc_title = title, kc_date = None, kc_source_path = doc_path doc,
          kc_facts = facts, kc_acronyms = acronyms, kc_entities = entities,
          kc_citations = [citation]\<rparr>)"

section \<open>\<open>loader.py\<close>\<close>

text \<open>
  What the loader sees of a file: its bytes, the outcome of reading it as UTF-8 text, and the
  outcome of opening it as a PDF (the pages, each with the outcome of its text extraction).
  A file system maps a path to the file there, if there is one; it does not change while
  a run reads it.
\<close>

datatype exn = UnicodeDecodeError | FileNotFoundError | ValueError string | OtherError string

record file_entry =
  f_bytes :: "nat list"
  f_utf8 :: "exn + string"
  f_pdf :: "exn + (exn + string) list"

type_synonym fs = "string \<Rightarrow> file_entry option"

definition PDF_EXT :: "string set" where
  "PDF_EXT = {''.pdf''}"

definition TXT_EXT :: "string set" where
  "TXT_EXT = {''.txt'', ''.md''}"

text \<open>\<open>str.lower\<close> and \<open>str.splitlines\<close>, for the code points below 256.\<close>

definition py_lower :: "string \<Rightarrow> string" where
  "py_lower s =
     map (\<lambda>c. let n = (of_char c :: nat)
               in if (65 \<le> n \<and> n \<le> 90) \<or> (192 \<le> n \<and> n \<le> 222 \<and> n \<noteq> 215)
                  then char_of (n + 32) else c) s"

definition is_linebreak :: "char \<Rightarrow> bool" where
  "is_linebreak c = (c \<in> {CHR 0x0A, CHR 0x0B, CHR 0x0C, CHR 0x0D, CHR 0x1C, CHR 0x1D, CHR 0x1E,
                            CHR 0x85})"

fun splitlines_from :: "string \<Rightarrow> string \<Rightarrow> string list" where
  "splitlines_from cur [] = (if cur = [] then [] else [cur])"
| "splitlines_from cur [c] = (if is_linebreak c then [cur] else [cur @ [c]])"
| "splitlines_from cur (c # d # cs) =
     (if c = CHR 0x0D \<and> d = CHR 0x0A then cur # splitlines_from [] cs
      else if is_linebreak c then cur # splitlines_from [] (d # cs)
      else splitlines_from (cur @ [c]) (d # cs))"

definition py_splitlines :: "string \<Rightarrow> string list" where
  "py_splitlines s = splitlines_from [] s"

text \<open>The loop over \<open>reader.pages\<close>: a page whose extraction fails counts as an empty page.\<close>

fun read_pages :: "(exn + string) list \<Rightarrow> string list \<times> string \<Rightarrow> string list \<times> string" where
  "read_pages [] (pages, full_text) = (pages, full_text)"
| "read_pages (Inr page_text # ps) (pages, full_text) =
     read_pages ps (pages @ [page_text], full_text @ page_text @ [CHR 0x0A])"
| "read_pages (Inl err # ps) (pages, full_text) =
     read_pages ps (pages @ [[]], full_text @ [CHR 0x0A])"

definition read_pdf :: "fs \<Rightarrow> string \<Rightarrow> document" where
  "read_pdf files path =
     (case files path of
        None \<Rightarrow> \<lparr>doc_path = path, doc_kind = Pdf, doc_text = [], doc_pages = Some [],
                  doc_lines = None, doc_bytes = 0\<rparr>
      | Some f \<Rightarrow>
          (let file_size = length (f_bytes f)
           in case f_pdf f of
                Inr reader_pages \<Rightarrow>
                  (case read_pages reader_pages ([], []) of
                     (pages, full_text) \<Rightarrow>
                       \<lparr>doc_path = path, doc_kind = Pdf, doc_text = py_strip full_text,
                        doc_pages = Some pages, doc_lines = None, doc_bytes = file_size\<rparr>)
              | Inl err \<Rightarrow>
                  \<lparr>doc_path = path, doc_kind = Pdf, doc_text = [], doc_pages = Some [],
                   doc_lines = None, doc_bytes = file_size\<rparr>))"

definition read_txt :: "fs \<Rightarrow> string \<Rightarrow> document" where
  "read_txt files path =
     (case files path of
        None \<Rightarrow> \<lparr>doc_path = path, doc_kind = Txt, doc_text = [], doc_pages = None,
                  doc_lines = Some [], doc_bytes = 0\<rparr>
      | Some f \<Rightarrow>
          (let file_size = length (f_bytes f)
           in case f_utf8 f of
                Inr content \<Rightarrow>
                  \<lparr>doc_path = path, doc_kind = Txt, doc_text = content, doc_pages = None,
                   doc_lines = Some (py_splitlines content), doc_bytes = file_size\<rparr>
              | Inl err \<Rightarrow>
                  \<lparr>doc_path = path, doc_kind = Txt, doc_text = [], doc_pages = None,
                   doc_lines = Some [], doc_bytes = file_size\<rparr>))"

text \<open>
  \<open>load_folder\<close>. The directory walk is an input: \<open>None\<close> when the folder is missing or is
  not a directory, otherwise the paths of the files under it, in the order \<open>os.walk\<close> yields
  them. Files with another extension are left out silently.
\<close>

definition load_folder :: "fs \<Rightarrow> string list option \<Rightarrow> document list" where
  "load_folder files walk =
     (case walk of
        None \<Rightarrow> []
      | Some file_paths \<Rightarrow>
          sort_key doc_path
            (concat (map (\<lambda>file_path.
               let file_ext = py_lower (path_suffix file_path)
               in if file_ext \<in> PDF_EXT then [read_pdf files file_path]
                  else if file_ext \<in> TXT_EXT then [read_txt files file_path]
                  else []) file_paths)))"

section \<open>\<open>writer.py\<close> and the \<open>build\<close> command of \<open>cli.py\<close>\<close>

record manifest =
  m_total_documents :: nat
  m_total_cards :: nat
  m_total_chunks :: nat
  m_skipped_files :: "string list"

definition write_manifest ::
  "document list \<Rightarrow> knowledge_card list \<Rightarrow> chunk list \<Rightarrow> string list \<Rightarrow> manifest" where
  "write_manifest docs cards chunks skipped =
     \<lparr>m_total_documents = length docs, m_total_cards = length cards,
      m_total_chunks = length chunks, m_skipped_files = skipped\<rparr>"

text \<open>
  The accumulators of \<open>build\<close>. No operation inside the \<open>try\<close> block raises in this model, so
  the handler, the only place that appends to \<open>skipped_files\<close>, is never entered; a
  \<open>chunk_doc\<close> that does not return keeps \<open>build\<close> from returning.
\<close>

record build_state =
  st_cards :: "knowledge_card list"
  st_all_chunks :: "chunk list"
  st_skipped_files :: "string list"

fun build_loop :: "env \<Rightarrow> int \<Rightarrow> int \<Rightarrow> document list \<Rightarrow> build_state \<Rightarrow> build_state option" where
  "build_loop e chunk overlap [] st = Some st"
| "build_loop e chunk overlap (doc # docs) st =
     (let card = build_knowledge_card e doc;
          cards' = st_cards st @ [card];
          doc_id = kc_id card
      in case chunk_doc doc doc_id chunk overlap of
           None \<Rightarrow> None
         | Some chunks \<Rightarrow>
             build_loop e chunk overlap docs
               (st\<lparr>st_cards := cards', st_all_chunks := st_all_chunks st @ chunks\<rparr>))"

text \<open>The three artifacts: the lines of \<open>cards.jsonl\<close> and \<open>chunks.jsonl\<close>, and the manifest.\<close>

record build_output =
  out_cards :: "knowledge_card list"
  out_chunks :: "chunk list"
  out_manifest :: manifest

definition build :: "env \<Rightarrow> fs \<Rightarrow> string list option \<Rightarrow> int \<Rightarrow> int \<Rightarrow> build_output option" where
  "build e files walk chunk overlap =
     (let docs = load_folder files walk
      in case build_loop e chunk overlap docs
                \<lparr>st_cards = [], st_all_chunks = [], st_skipped_files = []\<rparr> of
           None \<Rightarrow> None
         | Some st \<Rightarrow>
             Some \<lparr>out_cards = st_cards st, out_chunks = st_all_chunks st,
                   out_manifest = write_manifest docs (st_cards st) (st_all_chunks st)
                                    (st_skipped_files st)\<rparr>)"

section \<open>\<open>processors.py\<close>: the second pipeline\<close>

text \<open>\<open>Manifest\<close> of \<open>schemas.py\<close>.\<close>

record p_manifest =
  pm_total_documents :: nat
  pm_total_cards :: nat
  pm_total_chunks :: nat
  pm_skipped_files :: "string list"
  pm_checksums :: "string \<Rightarrow> string option"
  pm_created_at :: string

definition calculate_checksum :: "fs \<Rightarrow> string \<Rightarrow> exn + string" where
  "calculate_checksum files file_path =
     (case files file_path of
        None \<Rightarrow> Inl FileNotFoundError
      | Some f \<Rightarrow> Inr (sha1_bytes (f_bytes f)))"

definition generate_doc_id :: "string \<Rightarrow> string \<Rightarrow> string" where
  "generate_doc_id source_path checksum = sha1 (source_path @ '':'' @ checksum)"

definition generate_chunk_id :: "string \<Rightarrow> int \<Rightarrow> string" where
  "generate_chunk_id doc_id ordinal = sha1 (doc_id @ '':'' @ show_int ordinal)"

text \<open>Reading in text mode turns \<open>\r\n\<close> and \<open>\r\<close> into \<open>\n\<close>; Latin-1 decodes every byte.\<close>

fun universal_newlines :: "string \<Rightarrow> string" where
  "universal_newlines [] = []"
| "universal_newlines [c] = (if c = CHR 0x0D then [CHR 0x0A] else [c])"
| "universal_newlines (c # d # cs) =
     (if c = CHR 0x0D \<and> d = CHR 0x0A then CHR 0x0A # universal_newlines cs
      else if c = CHR 0x0D then CHR 0x0A # universal_newlines (d # cs)
      else c # universal_newlines (d # cs))"

definition read_txt_file :: "fs \<Rightarrow> string \<Rightarrow> exn + string \<times> string list" where
  "read_txt_file files file_path =
     (case files file_path of
        None \<Rightarrow> Inl FileNotFoundError
      | Some f \<Rightarrow>
          (case f_utf8 f of
             Inr content \<Rightarrow> Inr (content, py_splitlines content)
           | Inl UnicodeDecodeError \<Rightarrow>
               (let content = universal_newlines (map char_of (f_bytes f))
                in Inr (content, py_splitlines content))
           | Inl err \<Rightarrow> Inl err))"

fun read_pages_strict ::
  "(exn + string) list \<Rightarrow> string list \<times> string \<Rightarrow> exn + string list \<times> string" where
  "read_pages_strict [] (pages, full_text) = Inr (pages, full_text)"
| "read_pages_strict (Inr page_text # ps) (pages, full_text) =
     read_pages_strict ps (pages @ [page_text], full_text @ page_text @ [CHR 0x0A])"
| "read_pages_strict (Inl err # ps) (pages, full_text) = Inl err"

definition read_pdf_file :: "fs \<Rightarrow> string \<Rightarrow> exn + string \<times> string list" where
  "read_pdf_file files file_path =
     (case files file_path of
        None \<Rightarrow> Inl FileNotFoundError
      | Some f \<Rightarrow>
          (case f_pdf f of
             Inl err \<Rightarrow> Inl err
           | Inr reader_pages \<Rightarrow>
               (case read_pages_strict reader_pages ([], []) of
                  Inl err \<Rightarrow> Inl err
                | Inr (pages, full_text) \<Rightarrow> Inr (py_strip full_text, pages))))"

definition extract_facts :: "string \<Rightarrow> int \<Rightarrow> string list" where
  "extract_facts text max_facts =
     (let sentences = filter (\<lambda>s. s \<noteq> []) (map py_strip (py_split_char CHR ''.'' text))
      in filter (\<lambda>sentence. 20 < length sentence) (py_slice sentences 0 max_facts))"

definition extract_acronyms :: "string \<Rightarrow> string set" where
  "extract_acronyms text = set (scan_acronyms False text)"

definition extract_entities :: "string \<Rightarrow> string set" where
  "extract_entities text = set (scan_entities False text)"

text \<open>\<open>text.split('\n\n')\<close>.\<close>

fun split_blank :: "string \<Rightarrow> string \<Rightarrow> string list" where
  "split_blank cur [] = [cur]"
| "split_blank cur [c] = [cur @ [c]]"
| "split_blank cur (c # d # cs) =
     (if c = CHR 0x0A \<and> d = CHR 0x0A then cur # split_blank [] cs
      else split_blank (cur @ [c]) (d # cs))"

text \<open>The first page, counted from 1, that contains the paragraph.\<close>

fun find_page :: "string \<Rightarrow> string list \<Rightarrow> nat \<Rightarrow> int option" where
  "find_page paragraph [] page_idx = None"
| "find_page paragraph (page_text # ps) page_idx =
     (if sublist paragraph page_text then Some (int page_idx + 1)
      else find_page paragraph ps (Suc page_idx))"

definition create_chunks :: "string \<Rightarrow> string \<Rightarrow> string \<Rightarrow> string list option \<Rightarrow> chunk list" where
  "create_chunks text doc_id source_path pages =
     (let paragraphs = filter (\<lambda>p. p \<noteq> []) (map py_strip (split_blank [] text))
      in concat (map (\<lambda>(i, paragraph).
           if length paragraph < 50 then []
           else [\<lparr>ch_id = generate_chunk_id doc_id (int i), ch_doc_id = doc_id,
                   ch_ordinal = int i, ch_text = paragraph, ch_source_path = source_path,
                   ch_page = (case pages of None \<Rightarrow> None
                              | Some ps \<Rightarrow> find_page paragraph ps 0),
                   ch_line_start = None, ch_line_end = None\<rparr>])
          (enumerate 0 paragraphs)))"

definition process_document ::
  "fs \<Rightarrow> string \<Rightarrow> exn + knowledge_card \<times> chunk list \<times> string" where
  "process_document files file_path =
     (let source_path = file_path
      in case calculate_checksum files file_path of
           Inl err \<Rightarrow> Inl err
         | Inr checksum \<Rightarrow>
             (let doc_id = generate_doc_id source_path checksum;
                  contents =
                    (if py_lower (path_suffix file_path) = ''.pdf'' then
                       (case read_pdf_file files file_path of
                          Inl err \<Rightarrow> Inl err
                        | Inr (text, pages) \<Rightarrow> Inr (text, Some pages))
                     else if py_lower (path_suffix file_path) = ''.txt'' then
                       (case read_txt_file files file_path of
                          Inl err \<Rightarrow> Inl err
                        | Inr (text, lines) \<Rightarrow> Inr (text, None))
                     else Inl (ValueError (''Unsupported file type: '' @ path_suffix file_path)))
              in case contents of
                   Inl err \<Rightarrow> Inl err
                 | Inr (text, pages) \<Rightarrow>
                     (let card =
                            \<lparr>kc_id = doc_id, kc_title = path_stem file_path, kc_date = None,
                             kc_source_path = source_path, kc_facts = extract_facts text 5,
                             kc_acronyms = extract_acronyms text,
                             kc_entities = extract_entities text,
                             kc_citations =
                               [\<lparr>ci_doc_id = doc_id, ci_source_path = source_path,
                                 ci_text_excerpt =
                                   (if 200 < length text then take 200 text @ ''...'' else text),
                                 ci_page = None, ci_line = None\<rparr>]\<rparr>;
                          chunks = create_chunks text doc_id source_path pages
                      in Inr (card, chunks, checksum))))"

definition write_manifest_processors ::
  "knowledge_card list \<Rightarrow> chunk list \<Rightarrow> string list \<Rightarrow> (string \<Rightarrow> string option) \<Rightarrow> string
     \<Rightarrow> p_manifest" where
  "write_manifest_processors cards chunks skipped_files checksums now =
     \<lparr>pm_total_documents = length cards, pm_total_cards = length cards,
      pm_total_chunks = length chunks, pm_skipped_files = skipped_files,
      pm_checksums = checksums, pm_created_at = now\<rparr>"

record p_state =
  ps_cards :: "knowledge_card list"
  ps_all_chunks :: "chunk list"
  ps_checksums :: "string \<Rightarrow> string option"
  ps_skipped_files :: "string list"

fun process_loop :: "fs \<Rightarrow> string list \<Rightarrow> p_state \<Rightarrow> p_state" where
  "process_loop files [] st = st"
| "process_loop files (file_path # rest) st =
     (case process_document files file_path of
        Inr (kcard, chunks, checksum) \<Rightarrow>
          process_loop files rest
            (st\<lparr>ps_cards := ps_cards st @ [kcard], ps_all_chunks := ps_all_chunks st @ chunks,
                ps_checksums := (ps_checksums st)(file_path \<mapsto> checksum)\<rparr>)
      | Inl err \<Rightarrow>
          process_loop files rest (st\<lparr>ps_skipped_files := ps_skipped_files st @ [file_path]\<rparr>))"

record p_output =
  po_cards :: "knowledge_card list"
  po_chunks :: "chunk list"
  po_manifest :: p_manifest

text \<open>
  \<open>process_folder\<close>: \<open>globbed\<close> are the paths that match \<open>*.pdf\<close> or \<open>*.txt\<close> in the input
  folder, in the order the two globs yield them, and \<open>now\<close> is the clock reading that stamps
  the manifest. The paths lie in one directory, where the order of paths is the order of their
  strings.
\<close>

definition process_folder :: "fs \<Rightarrow> string list \<Rightarrow> string \<Rightarrow> p_output" where
  "process_folder files globbed now =
     (let st = process_loop files (sort globbed)
                 \<lparr>ps_cards = [], ps_all_chunks = [], ps_checksums = Map.empty,
                  ps_skipped_files = []\<rparr>
      in \<lparr>po_cards = ps_cards st, po_chunks = ps_all_chunks st,
          po_manifest = write_manifest_processors (ps_cards st) (ps_all_chunks st)
                          (ps_skipped_files st) (ps_checksums st) now\<rparr>)"

section \<open>The extraction rule as the specification words it\<close>

text \<open>
  Split on periods, trim, discard the sentences of at most 20 characters, keep the first 5.
\<close>

definition spec_facts :: "string \<Rightarrow> string list" where
  "spec_facts text =
     take 5 (filter (\<lambda>s. 20 < length s) (map py_strip (py_split_char CHR ''.'' text)))"

section \<open>Words\<close>

text \<open>A word as \<open>split()\<close> yields it: not empty, and free of whitespace.\<close>

definition good_word :: "string \<Rightarrow> bool" where
  "good_word w = (w \<noteq> [] \<and> (\<forall>c\<in>set w. \<not> py_isspace c))"

section \<open>Example inputs\<close>

text \<open>
  A folder with a readable text file of three words and a file that is not valid UTF-8, read
  by a process whose working directory is \<open>/work\<close>.
\<close>

definition example_env :: env where
  "example_env = \<lparr>cwd = ''/work''\<rparr>"

definition good_file :: file_entry where
  "good_file = \<lparr>f_bytes = [97, 32, 98, 32, 99], f_utf8 = Inr ''a b c'',
                 f_pdf = Inl (OtherError ''not a PDF'')\<rparr>"

definition bad_file :: file_entry where
  "bad_file = \<lparr>f_bytes = [255, 254], f_utf8 = Inl UnicodeDecodeError,
                f_pdf = Inl (OtherError ''not a PDF'')\<rparr>"

definition example_fs :: fs where
  "example_fs p = (if p = ''/in/abc.txt'' then Some good_file
                   else if p = ''/in/bad.txt'' then Some bad_file else None)"

text \<open>
  The document that the loader makes of the readable file, a document whose text is one
  blank, and a document of 201 characters.
\<close>

definition three_words_doc :: document where
  "three_words_doc = \<lparr>doc_path = ''/in/abc.txt'', doc_kind = Txt, doc_text = ''a b c'',
                       doc_pages = None, doc_lines = Some [''a b c''], doc_bytes = 5\<rparr>"

definition blank_doc :: document where
  "blank_doc = \<lparr>doc_path = ''/in/blank.txt'', doc_kind = Txt, doc_text = '' '', doc_pages = None,
                 doc_lines = Some ['' ''], doc_bytes = 1\<rparr>"

definition long_doc :: document where
  "long_doc = \<lparr>doc_path = ''/in/long.txt'', doc_kind = Txt, doc_text = replicate 201 CHR ''x'',
                doc_pages = None, doc_lines = Some [replicate 201 CHR ''x''], doc_bytes = 201\<rparr>"

text \<open>Five short sentences before a long one, and two long sentences.\<close>

definition short_sentences :: string where
  "short_sentences = ''a.b.c.d.e.This sentence is longer than twenty chars''"

definition two_sentences :: string where
  "two_sentences =
     ''Machine Learning (ML) is a subset of AI. It uses algorithms to learn patterns.''"

section \<open>Properties of the string operations\<close>

lemma split_ws_words:
  "\<forall>c\<in>set cur. \<not> py_isspace c \<Longrightarrow> \<forall>w\<in>set (split_ws cur s). good_word w"
proof (induction s arbitrary: cur)
  case Nil
  then show ?case by (simp add: good_word_def)
next
  case (Cons c cs)
  have ih0: "\<forall>w\<in>set (split_ws [] cs). good_word w"
    by (rule Cons.IH) simp
  show ?case
  proof (cases "py_isspace c")
    case True
    show ?thesis
    proof (cases "cur = []")
      case True
      with \<open>py_isspace c\<close> ih0 show ?thesis by simp
    next
      case False
      with Cons.prems have "good_word cur" by (simp add: good_word_def)
      with False \<open>py_isspace c\<close> ih0 show ?thesis by simp
    qed
  next
    case False
    with Cons.prems have "\<forall>x\<in>set (cur @ [c]). \<not> py_isspace x" by simp
    then have "\<forall>w\<in>set (split_ws (cur @ [c]) cs). good_word w" by (rule Cons.IH)
    with False show ?thesis by simp
  qed
qed

lemma py_split_words: "\<forall>w\<in>set (py_split s). good_word w"
  unfolding py_split_def by (rule split_ws_words) simp

lemma split_ws_nospace:
  "\<forall>c\<in>set w. \<not> py_isspace c \<Longrightarrow> split_ws cur (w @ s) = split_ws (cur @ w) s"
proof (induction w arbitrary: cur)
  case Nil
  show ?case by simp
next
  case (Cons a w)
  then have "split_ws (cur @ [a]) (w @ s) = split_ws ((cur @ [a]) @ w) s" by simp
  with Cons.prems show ?case by simp
qed

lemma isspace_blank: "py_isspace CHR '' ''"
  by (simp add: py_isspace_def)

lemma py_split_join:
  "\<forall>w\<in>set ws. good_word w \<Longrightarrow> py_split (py_join '' '' ws) = ws"
proof (induction ws rule: induct_list012)
  case 1
  show ?case by (simp add: py_split_def)
next
  case (2 w)
  then have w: "w \<noteq> []" "\<forall>c\<in>set w. \<not> py_isspace c" by (simp_all add: good_word_def)
  have "split_ws [] (w @ []) = split_ws ([] @ w) []" using w(2) by (rule split_ws_nospace)
  with w(1) show ?case by (simp add: py_split_def)
next
  case (3 w v ws)
  from 3(3) have "\<forall>x\<in>set (v # ws). good_word x" by simp
  then have ih: "split_ws [] (py_join '' '' (v # ws)) = v # ws"
    using 3(2) by (simp add: py_split_def)
  from 3(3) have w: "w \<noteq> []" "\<forall>c\<in>set w. \<not> py_isspace c" by (simp_all add: good_word_def)
  have "split_ws [] (w @ ('' '' @ py_join '' '' (v # ws)))
        = split_ws ([] @ w) ('' '' @ py_join '' '' (v # ws))"
    using w(2) by (rule split_ws_nospace)
  also have "\<dots> = w # split_ws [] (py_join '' '' (v # ws))"
    using w(1) by (simp add: isspace_blank)
  finally show ?case using ih by (simp add: py_split_def)
qed

lemma py_join_nonempty: "ws \<noteq> [] \<Longrightarrow> \<forall>w\<in>set ws. w \<noteq> [] \<Longrightarrow> py_join sep ws \<noteq> []"
  by (induction ws rule: induct_list012) simp_all

lemma py_slice_window:
  assumes "0 \<le> start" "start < int (length ws)" "0 \<le> sz"
  shows "py_slice ws start (min (start + sz) (int (length ws)))
         = take (nat sz) (drop (nat start) ws)"
proof (cases "start + sz \<le> int (length ws)")
  case True
  then have "min (start + sz) (int (length ws)) = start + sz" by simp
  moreover have "nat (start + sz - start) = nat sz" by simp
  ultimately show ?thesis
    using assms True unfolding py_slice_def Let_def by simp
next
  case False
  then have m: "min (start + sz) (int (length ws)) = int (length ws)" by simp
  from False assms have "length (drop (nat start) ws) \<le> nat sz" by simp
  then have "take (nat sz) (drop (nat start) ws) = drop (nat start) ws" by simp
  moreover have "take (nat (int (length ws) - start)) (drop (nat start) ws) = drop (nat start) ws"
    using assms by simp
  ultimately show ?thesis
    using assms unfolding py_slice_def Let_def m by simp
qed

lemma chunk_loop_returns:
  assumes "overlap < sz"
  shows "\<exists>cs. chunk_loop ws did src sz overlap start ord acc = Some cs"
proof (induction "nat (int (length ws) - start)" arbitrary: start ord acc rule: less_induct)
  case less
  show ?case
  proof (cases "start < int (length ws)")
    case False
    then show ?thesis by (subst chunk_loop.simps) simp
  next
    case True
    show ?thesis
    proof (cases "int (length ws) \<le> min (start + sz) (int (length ws))")
      case True
      with \<open>start < int (length ws)\<close> show ?thesis
        by (subst chunk_loop.simps) (simp add: Let_def)
    next
      case False
      then have stop: "min (start + sz) (int (length ws)) = start + sz" by simp
      have "nat (int (length ws) - (start + sz - overlap)) < nat (int (length ws) - start)"
        using assms True by simp
      from less[OF this] obtain cs where
        "chunk_loop ws did src sz overlap (start + sz - overlap) (ord + 1)
           (acc @ [\<lparr>ch_id = sha1 (did @ '':'' @ show_int ord), ch_doc_id = did, ch_ordinal = ord,
                     ch_text = py_join '' '' (py_slice ws start (start + sz)), ch_source_path = src,
                     ch_page = None, ch_line_start = None, ch_line_end = None\<rparr>]) = Some cs"
        by blast
      with True False stop show ?thesis
        by (subst chunk_loop.simps) (simp add: Let_def)
    qed
  qed
qed

lemma chunk_loop_ordinals:
  assumes "chunk_loop ws did src sz overlap start ord acc = Some cs"
  shows "map ch_ordinal acc = [1..int (length acc)] \<and> ord = int (length acc) + 1
     \<longrightarrow> map ch_ordinal cs = [1..int (length cs)] \<and> length acc \<le> length cs
        \<and> (start < int (length ws) \<longrightarrow> cs \<noteq> [])"
  using assms
proof (induct ws did src sz overlap start ord acc cs
       rule: chunk_loop.raw_induct[rotated 1, consumes 1])
  case (1 chunk_loop' ws did src sz overlap start ord acc cs)
  show ?case
  proof (intro impI)
    assume inv: "map ch_ordinal acc = [1..int (length acc)] \<and> ord = int (length acc) + 1"
    show "map ch_ordinal cs = [1..int (length cs)] \<and> length acc \<le> length cs
        \<and> (start < int (length ws) \<longrightarrow> cs \<noteq> [])"
    proof (cases "start < int (length ws)")
      case False
      with 1(2) inv show ?thesis by simp
    next
      case True
      let ?c = "\<lparr>ch_id = sha1 (did @ '':'' @ show_int ord), ch_doc_id = did, ch_ordinal = ord,
                     ch_text = py_join '' '' (py_slice ws start (min (start + sz) (int (length ws)))),
                     ch_source_path = src,
                     ch_page = None, ch_line_start = None, ch_line_end = None\<rparr>"
      have inv': "map ch_ordinal (acc @ [?c]) = [1..int (length (acc @ [?c]))]
                  \<and> ord + 1 = int (length (acc @ [?c])) + 1"
        using inv by (simp add: upto_rec2)
      show ?thesis
      proof (cases "int (length ws) \<le> min (start + sz) (int (length ws))")
        case True
        with 1(2) \<open>start < int (length ws)\<close> have "cs = acc @ [?c]"
          by (simp add: Let_def)
        with inv' show ?thesis by auto
      next
        case False
        with 1(2) True have
          "chunk_loop' ws did src sz overlap (min (start + sz) (int (length ws)) - overlap) (ord + 1) (acc @ [?c]) = Some cs"
          by (simp add: Let_def)
        from 1(1)[OF this] inv' have "map ch_ordinal cs = [1..int (length cs)] \<and> length (acc @ [?c]) \<le> length cs"
          by blast
        then show ?thesis by auto
      qed
    qed
  qed
qed

lemma chunk_loop_stuck:
  assumes "chunk_loop ws did src sz overlap start ord acc = Some cs"
  shows "\<not> (sz \<le> overlap \<and> sz < int (length ws) \<and> start \<le> 0 \<and> ws \<noteq> [])"
  using assms
proof (induct ws did src sz overlap start ord acc cs
       rule: chunk_loop.raw_induct[rotated 1, consumes 1])
  case (1 chunk_loop' ws did src sz overlap start ord acc cs)
  show ?case
  proof
    assume a: "sz \<le> overlap \<and> sz < int (length ws) \<and> start \<le> 0 \<and> ws \<noteq> []"
    then have lt: "start < int (length ws)" by (cases ws) auto
    from a have stop: "min (start + sz) (int (length ws)) = start + sz" by simp
    from a have nb: "\<not> int (length ws) \<le> start + sz" by simp
    from 1(2) lt stop nb obtain c where
      "chunk_loop' ws did src sz overlap (start + sz - overlap) (ord + 1) (acc @ [c]) = Some cs"
      by (simp add: Let_def)
    from 1(1)[OF this] a show False by simp
  qed
qed

lemma chunk_loop_diverges:
  assumes "sz \<le> overlap" "sz < int (length ws)" "start \<le> 0" "ws \<noteq> []"
  shows "chunk_loop ws did src sz overlap start ord acc = None"
proof (cases "chunk_loop ws did src sz overlap start ord acc")
  case None
  then show ?thesis .
next
  case (Some cs)
  from chunk_loop_stuck[OF this] assms show ?thesis by simp
qed

section \<open>Chunking\<close>

lemma py_split_three_words: "py_split ''a b c'' = [''a'', ''b'', ''c'']"
  by (simp add: py_split_def py_isspace_def)

lemma chunk_doc_returns:
  assumes "overlap < sz"
  shows "\<exists>cs. chunk_doc doc did sz overlap = Some cs"
  using chunk_loop_returns[OF assms] by (simp add: chunk_doc_def Let_def)

lemma chunk_doc_ordinals_aux:
  assumes "chunk_doc doc did sz overlap = Some cs"
  shows "map ch_ordinal cs = [1..int (length cs)] \<and> (cs = [] \<longleftrightarrow> py_split (doc_text doc) = [])"
proof (cases "py_split (doc_text doc) = []")
  case True
  with assms show ?thesis by (simp add: chunk_doc_def Let_def)
next
  case False
  show ?thesis
  proof (cases "int (length (py_split (doc_text doc))) \<le> sz")
    case True
    with False assms show ?thesis by (auto simp: chunk_doc_def Let_def)
  next
    case le: False
    with False assms have
      l: "chunk_loop (py_split (doc_text doc)) did (doc_path doc) sz overlap 0 1 [] = Some cs"
      by (simp add: chunk_doc_def Let_def)
    from False have "0 < int (length (py_split (doc_text doc)))" by simp
    with chunk_loop_ordinals[OF l] False show ?thesis by simp
  qed
qed

text \<open>
  C5, as the code has it. Whenever \<open>chunk_doc\<close> returns, the ordinals of the chunks are
  exactly \<open>1..N\<close> in order, and there is no chunk exactly when the text holds no word; it
  returns whenever \<open>overlap < size\<close>; for the empty text it returns no chunk.
\<close>

theorem chunk_doc_ordinals:
  "(\<forall>cs. chunk_doc doc did sz overlap = Some cs \<longrightarrow>
      map ch_ordinal cs = [1..int (length cs)] \<and> (cs = [] \<longleftrightarrow> py_split (doc_text doc) = []))
   \<and> (overlap < sz \<longrightarrow> (\<exists>cs. chunk_doc doc did sz overlap = Some cs))
   \<and> chunk_doc (doc\<lparr>doc_text := []\<rparr>) did sz overlap = Some []"
proof (intro conjI allI impI)
  fix cs assume "chunk_doc doc did sz overlap = Some cs"
  from chunk_doc_ordinals_aux[OF this]
  show "map ch_ordinal cs = [1..int (length cs)]" "cs = [] \<longleftrightarrow> py_split (doc_text doc) = []"
    by simp_all
next
  assume "overlap < sz"
  then show "\<exists>cs. chunk_doc doc did sz overlap = Some cs" by (rule chunk_doc_returns)
next
  show "chunk_doc (doc\<lparr>doc_text := []\<rparr>) did sz overlap = Some []"
    by (simp add: chunk_doc_def py_split_def)
qed

text \<open>The theorem at a text of three words, chunk size 2 and overlap 1.\<close>

theorem chunk_doc_ordinals_witness:
  "(1::int) < 2 \<and>
   (\<exists>cs. chunk_doc three_words_doc ''d0'' 2 1 = Some cs
         \<and> map ch_ordinal cs = [1..int (length cs)] \<and> cs \<noteq> [])"
proof -
  have w: "py_split (doc_text three_words_doc) \<noteq> []"
    by (simp add: three_words_doc_def py_split_three_words)
  from chunk_doc_ordinals[of three_words_doc "''d0''" 2 1]
  obtain cs where cs: "chunk_doc three_words_doc ''d0'' 2 1 = Some cs" by auto
  with chunk_doc_ordinals[of three_words_doc "''d0''" 2 1] w
  have "map ch_ordinal cs = [1..int (length cs)] \<and> cs \<noteq> []" by blast
  with cs show ?thesis by simp
qed

text \<open>
  C5 as stated fails: a text of one blank is not empty, and \<open>chunk_doc\<close> returns no chunk.
\<close>

theorem chunk_doc_blank_text_counterexample:
  "doc_text blank_doc \<noteq> [] \<and> chunk_doc blank_doc ''d0'' 800 120 = Some []"
  by (simp add: blank_doc_def chunk_doc_def py_split_def py_isspace_def)

lemma chunk_loop_windows:
  assumes "chunk_loop ws did src sz overlap start ord acc = Some cs"
  shows "0 \<le> overlap \<and> overlap < sz \<and> start = int (length acc) * (sz - overlap)
         \<and> (\<forall>i<length acc.
               ch_text (acc ! i) = py_join '' '' (take (nat sz) (drop (i * nat (sz - overlap)) ws))
               \<and> int i * (sz - overlap) + sz < int (length ws))
     \<longrightarrow> (\<forall>i<length cs.
            ch_text (cs ! i) = py_join '' '' (take (nat sz) (drop (i * nat (sz - overlap)) ws)))
        \<and> (\<forall>i. Suc i < length cs \<longrightarrow> int i * (sz - overlap) + sz < int (length ws))"
  using assms
proof (induct ws did src sz overlap start ord acc cs
       rule: chunk_loop.raw_induct[rotated 1, consumes 1])
  case (1 chunk_loop' ws did src sz overlap start ord acc cs)
  let ?W = "\<lambda>i. py_join '' '' (take (nat sz) (drop (i * nat (sz - overlap)) ws))"
  let ?n = "int (length ws)"
  show ?case
  proof (intro impI)
    assume inv: "0 \<le> overlap \<and> overlap < sz \<and> start = int (length acc) * (sz - overlap)
         \<and> (\<forall>i<length acc. ch_text (acc ! i) = ?W i \<and> int i * (sz - overlap) + sz < ?n)"
    then have ov: "0 \<le> overlap" "overlap < sz"
      and st: "start = int (length acc) * (sz - overlap)"
      and old: "\<forall>i<length acc. ch_text (acc ! i) = ?W i \<and> int i * (sz - overlap) + sz < ?n"
      by simp_all
    from ov st have st0: "0 \<le> start" by simp
    from ov st have nst: "nat start = length acc * nat (sz - overlap)"
      by (simp add: nat_mult_distrib)
    show "(\<forall>i<length cs. ch_text (cs ! i) = ?W i)
        \<and> (\<forall>i. Suc i < length cs \<longrightarrow> int i * (sz - overlap) + sz < ?n)"
    proof (cases "start < ?n")
      case False
      with 1(2) have "cs = acc" by simp
      with old show ?thesis by simp
    next
      case True
      let ?c = "\<lparr>ch_id = sha1 (did @ '':'' @ show_int ord), ch_doc_id = did, ch_ordinal = ord,
                  ch_text = py_join '' '' (py_slice ws start (min (start + sz) ?n)),
                  ch_source_path = src,
                  ch_page = None, ch_line_start = None, ch_line_end = None\<rparr>"
      have "py_slice ws start (min (start + sz) ?n) = take (nat sz) (drop (nat start) ws)"
        using st0 True ov by (intro py_slice_window) simp_all
      then have ctext: "ch_text ?c = ?W (length acc)" by (simp add: nst)
      have texts: "\<forall>i<length (acc @ [?c]). ch_text ((acc @ [?c]) ! i) = ?W i"
      proof (intro allI impI)
        fix i assume "i < length (acc @ [?c])"
        then consider "i < length acc" | "i = length acc" by fastforce
        then show "ch_text ((acc @ [?c]) ! i) = ?W i"
        proof cases
          case 1
          with old show ?thesis by (simp add: nth_append)
        next
          case 2
          with ctext show ?thesis by (simp add: nth_append)
        qed
      qed
      show ?thesis
      proof (cases "?n \<le> min (start + sz) ?n")
        case True
        with 1(2) \<open>start < ?n\<close> have cs: "cs = acc @ [?c]" by (simp add: Let_def)
        from old have "\<forall>i. Suc i < length (acc @ [?c]) \<longrightarrow> int i * (sz - overlap) + sz < ?n"
          by simp
        with texts show ?thesis unfolding cs by blast
      next
        case False
        then have stop: "min (start + sz) ?n = start + sz" and lt: "start + sz < ?n" by simp_all
        from 1(2) True False have rec:
          "chunk_loop' ws did src sz overlap (min (start + sz) ?n - overlap) (ord + 1) (acc @ [?c])
             = Some cs"
          by (simp add: Let_def)
        have st': "min (start + sz) ?n - overlap = int (length (acc @ [?c])) * (sz - overlap)"
        proof -
          have "start + sz - overlap = int (length (acc @ [?c])) * (sz - overlap)"
            unfolding st by (simp add: algebra_simps)
          with stop show ?thesis by simp
        qed
        have old': "\<forall>i<length (acc @ [?c]).
               ch_text ((acc @ [?c]) ! i) = ?W i \<and> int i * (sz - overlap) + sz < ?n"
        proof (intro allI impI)
          fix i assume i: "i < length (acc @ [?c])"
          then consider "i < length acc" | "i = length acc" by fastforce
          then have "int i * (sz - overlap) + sz < ?n"
          proof cases
            case 1
            with old show ?thesis by simp
          next
            case 2
            with lt st show ?thesis by simp
          qed
          with texts i show "ch_text ((acc @ [?c]) ! i) = ?W i \<and> int i * (sz - overlap) + sz < ?n"
            by blast
        qed
        from 1(1)[OF rec] ov st' old' show ?thesis by blast
      qed
    qed
  qed
qed

lemma good_words_sublist:
  "\<forall>w\<in>set ws. good_word w \<Longrightarrow> \<forall>w\<in>set (take k (drop j ws)). good_word w"
  by (meson in_set_dropD in_set_takeD)

text \<open>
  C10. For a text of more than \<open>size\<close> words and \<open>0 < overlap < size\<close>, \<open>chunk_doc\<close>
  returns; chunk \<open>i\<close> (counted from 0) holds the words of the window that starts at word
  \<open>i * (size - overlap)\<close> and is \<open>size\<close> words long, cut at the end of the text. Every chunk
  before the last one is full, so the next window starts \<open>overlap\<close> words before its end: the
  first \<open>overlap\<close> words of a chunk are the last \<open>overlap\<close> words of the chunk before it.
  Every chunk has a text that is not empty, of at most \<open>size\<close> words.
\<close>

theorem chunk_doc_overlap:
  assumes long: "sz < int (length (py_split (doc_text doc)))"
    and ov: "0 < overlap" "overlap < sz"
  shows "\<exists>cs. chunk_doc doc did sz overlap = Some cs
     \<and> (\<forall>i<length cs. py_split (ch_text (cs ! i))
            = take (nat sz) (drop (i * nat (sz - overlap)) (py_split (doc_text doc))))
     \<and> (\<forall>i. Suc i < length cs \<longrightarrow>
            length (py_split (ch_text (cs ! i))) = nat sz
          \<and> take (nat overlap) (py_split (ch_text (cs ! Suc i)))
              = drop (nat sz - nat overlap) (py_split (ch_text (cs ! i)))
          \<and> length (take (nat overlap) (py_split (ch_text (cs ! Suc i)))) = nat overlap)
     \<and> (\<forall>c\<in>set cs. ch_text c \<noteq> [] \<and> py_split (ch_text c) \<noteq> []
            \<and> length (py_split (ch_text c)) \<le> nat sz)"
proof -
  define ws where "ws = py_split (doc_text doc)"
  define S where "S = nat sz"
  define d where "d = nat (sz - overlap)"
  define V where "V = nat overlap"
  let ?W = "\<lambda>i. take S (drop (i * d) ws)"
  from ov have Sd: "S = d + V" "0 < V" "0 < d" by (simp_all add: S_def d_def V_def)
  from long ov have n: "S < length ws" by (simp add: ws_def S_def)
  then have ne: "ws \<noteq> []" by auto
  have good: "\<forall>w\<in>set ws. good_word w" unfolding ws_def by (rule py_split_words)
  from long ne have cd: "chunk_doc doc did sz overlap
      = chunk_loop ws did (doc_path doc) sz overlap 0 1 []"
    by (simp add: chunk_doc_def Let_def ws_def)
  from chunk_loop_returns[OF ov(2)] obtain cs where
    cs: "chunk_loop ws did (doc_path doc) sz overlap 0 1 [] = Some cs" by blast
  from chunk_loop_windows[OF cs] ov
  have texts: "\<forall>i<length cs. ch_text (cs ! i) = py_join '' '' (?W i)"
    and full0: "\<forall>i. Suc i < length cs \<longrightarrow> int i * (sz - overlap) + sz < int (length ws)"
    by (simp_all add: S_def d_def)
  have full: "i * d + S < length ws" if "Suc i < length cs" for i
  proof -
    from ov have "int (i * d + S) = int i * (sz - overlap) + sz" by (simp add: S_def d_def)
    with full0 that show ?thesis by (metis of_nat_less_iff)
  qed
  have words: "py_split (ch_text (cs ! i)) = ?W i" if "i < length cs" for i
  proof -
    have "\<forall>w\<in>set (?W i). good_word w" using good by (rule good_words_sublist)
    then have "py_split (py_join '' '' (?W i)) = ?W i" by (rule py_split_join)
    with texts that show ?thesis by simp
  qed
  have inside: "i * d < length ws" if "i < length cs" for i
  proof (cases i)
    case 0
    with ne show ?thesis by simp
  next
    case (Suc j)
    with that have "j * d + S < length ws" by (intro full) simp
    with Suc Sd show ?thesis by simp
  qed
  have nonempty: "?W i \<noteq> []" if "i < length cs" for i
    using inside[OF that] Sd by simp
  have p1: "\<forall>i<length cs. py_split (ch_text (cs ! i)) = ?W i" using words by blast
  have p2: "\<forall>i. Suc i < length cs \<longrightarrow>
            length (py_split (ch_text (cs ! i))) = S
          \<and> take V (py_split (ch_text (cs ! Suc i))) = drop (S - V) (py_split (ch_text (cs ! i)))
          \<and> length (take V (py_split (ch_text (cs ! Suc i)))) = V"
  proof (intro allI impI)
    fix i assume i: "Suc i < length cs"
    then have i': "i < length cs" by simp
    from full[OF i] have f: "i * d + S < length ws" .
    have a: "length (?W i) = S" using f by simp
    have "drop (S - V) (?W i) = drop d (take S (drop (i * d) ws))" using Sd by simp
    also have "\<dots> = take (S - d) (drop d (drop (i * d) ws))" by (simp add: drop_take)
    also have "\<dots> = take V (drop (Suc i * d) ws)" using Sd by (simp add: add.commute)
    finally have b: "drop (S - V) (?W i) = take V (drop (Suc i * d) ws)" .
    have c: "take V (?W (Suc i)) = take V (drop (Suc i * d) ws)" using Sd by (simp add: min_def)
    have e: "length (take V (drop (Suc i * d) ws)) = V" using f Sd by simp
    from a b c e words[OF i] words[OF i']
    show "length (py_split (ch_text (cs ! i))) = S
          \<and> take V (py_split (ch_text (cs ! Suc i))) = drop (S - V) (py_split (ch_text (cs ! i)))
          \<and> length (take V (py_split (ch_text (cs ! Suc i)))) = V"
      by simp
  qed
  have p3: "\<forall>c\<in>set cs. ch_text c \<noteq> [] \<and> py_split (ch_text c) \<noteq> []
            \<and> length (py_split (ch_text c)) \<le> S"
  proof
    fix c assume "c \<in> set cs"
    then obtain i where i: "i < length cs" "c = cs ! i" by (metis in_set_conv_nth)
    have g: "\<forall>w\<in>set (?W i). w \<noteq> []"
      using good_words_sublist[OF good, of S "i * d"] by (simp add: good_word_def)
    have "py_join '' '' (?W i) \<noteq> []" using nonempty[OF i(1)] g by (rule py_join_nonempty)
    with texts i have t: "ch_text c \<noteq> []" by simp
    from words[OF i(1)] i nonempty[OF i(1)] have "py_split (ch_text c) \<noteq> []" by simp
    moreover from words[OF i(1)] i have "length (py_split (ch_text c)) \<le> S" by simp
    ultimately show "ch_text c \<noteq> [] \<and> py_split (ch_text c) \<noteq> []
            \<and> length (py_split (ch_text c)) \<le> S" using t by simp
  qed
  from cd cs have r: "chunk_doc doc did sz overlap = Some cs" by simp
  note q1 = p1[unfolded ws_def S_def d_def]
  note q2 = p2[unfolded ws_def S_def d_def V_def]
  note q3 = p3[unfolded S_def]
  show ?thesis
  proof (rule exI[where x = cs], intro conjI)
    show "chunk_doc doc did sz overlap = Some cs" by (rule r)
    show "\<forall>i<length cs. py_split (ch_text (cs ! i))
            = take (nat sz) (drop (i * nat (sz - overlap)) (py_split (doc_text doc)))"
      by (rule q1)
    show "\<forall>i. Suc i < length cs \<longrightarrow>
            length (py_split (ch_text (cs ! i))) = nat sz
          \<and> take (nat overlap) (py_split (ch_text (cs ! Suc i)))
              = drop (nat sz - nat overlap) (py_split (ch_text (cs ! i)))
          \<and> length (take (nat overlap) (py_split (ch_text (cs ! Suc i)))) = nat overlap"
      by (rule q2)
    show "\<forall>c\<in>set cs. ch_text c \<noteq> [] \<and> py_split (ch_text c) \<noteq> []
            \<and> length (py_split (ch_text c)) \<le> nat sz"
      by (rule q3)
  qed
qed

text \<open>The theorem at a text of three words, chunk size 2 and overlap 1.\<close>

theorem chunk_doc_overlap_witness:
  "(2::int) < int (length (py_split (doc_text three_words_doc))) \<and> (0::int) < 1 \<and> (1::int) < 2
   \<and> (\<exists>cs. chunk_doc three_words_doc ''d0'' 2 1 = Some cs
         \<and> (\<forall>i. Suc i < length cs \<longrightarrow>
                take (nat 1) (py_split (ch_text (cs ! Suc i)))
                = drop (nat 2 - nat 1) (py_split (ch_text (cs ! i))))
         \<and> (\<forall>c\<in>set cs. ch_text c \<noteq> []))"
proof -
  have h: "(2::int) < int (length (py_split (doc_text three_words_doc)))"
    by (simp add: three_words_doc_def py_split_three_words)
  from chunk_doc_overlap[OF h, of 1 "''d0''"] obtain cs where
    "chunk_doc three_words_doc ''d0'' 2 1 = Some cs"
    "\<forall>i. Suc i < length cs \<longrightarrow>
        take (nat 1) (py_split (ch_text (cs ! Suc i)))
        = drop (nat 2 - nat 1) (py_split (ch_text (cs ! i)))"
    "\<forall>c\<in>set cs. ch_text c \<noteq> []"
    by auto
  with h show ?thesis by auto
qed

section \<open>The example folder\<close>

lemma suffix_abc: "py_lower (path_suffix ''/in/abc.txt'') = ''.txt''"
  by (simp add: path_suffix_def path_name_def path_parts_def py_split_char_def py_rfind_def
      py_lower_def Let_def)

lemma suffix_bad: "py_lower (path_suffix ''/in/bad.txt'') = ''.txt''"
  by (simp add: path_suffix_def path_name_def path_parts_def py_split_char_def py_rfind_def
      py_lower_def Let_def)

lemma read_abc: "read_txt example_fs ''/in/abc.txt'' = three_words_doc"
  by (simp add: read_txt_def example_fs_def good_file_def three_words_doc_def py_splitlines_def
      is_linebreak_def)

lemma load_one: "load_folder example_fs (Some [''/in/abc.txt'']) = [three_words_doc]"
  by (simp add: load_folder_def suffix_abc PDF_EXT_def TXT_EXT_def read_abc)

section \<open>The \<open>build\<close> command\<close>

lemma build_loop_returns:
  assumes "overlap < chunk"
  shows "\<exists>st'. build_loop e chunk overlap docs st = Some st'"
proof (induction docs arbitrary: st)
  case Nil
  show ?case by simp
next
  case (Cons doc docs)
  from chunk_doc_returns[OF assms] obtain cs where
    "chunk_doc doc (kc_id (build_knowledge_card e doc)) chunk overlap = Some cs" by blast
  with Cons.IH show ?case by (simp add: Let_def)
qed

lemma build_loop_result:
  "build_loop e chunk overlap docs st = Some st' \<Longrightarrow>
     st_cards st' = st_cards st @ map (build_knowledge_card e) docs
     \<and> st_skipped_files st' = st_skipped_files st
     \<and> (\<exists>css. length css = length docs
           \<and> (\<forall>i<length docs.
                 chunk_doc (docs ! i) (kc_id (build_knowledge_card e (docs ! i))) chunk overlap
                 = Some (css ! i))
           \<and> st_all_chunks st' = st_all_chunks st @ concat css)"
proof (induction docs arbitrary: st)
  case Nil
  then show ?case by simp
next
  case (Cons doc docs)
  let ?card = "build_knowledge_card e doc"
  from Cons.prems obtain cs where
    cs: "chunk_doc doc (kc_id ?card) chunk overlap = Some cs"
    by (cases "chunk_doc doc (kc_id ?card) chunk overlap") (simp_all add: Let_def)
  let ?st = "st\<lparr>st_cards := st_cards st @ [?card], st_all_chunks := st_all_chunks st @ cs\<rparr>"
  from Cons.prems cs have rec: "build_loop e chunk overlap docs ?st = Some st'"
    by (simp add: Let_def)
  from Cons.IH[OF rec] obtain css where
    a: "st_cards st' = st_cards ?st @ map (build_knowledge_card e) docs"
       "st_skipped_files st' = st_skipped_files ?st"
       "length css = length docs"
       "\<forall>i<length docs.
           chunk_doc (docs ! i) (kc_id (build_knowledge_card e (docs ! i))) chunk overlap
           = Some (css ! i)"
       "st_all_chunks st' = st_all_chunks ?st @ concat css"
    by blast
  have b: "\<forall>i<length (doc # docs).
           chunk_doc ((doc # docs) ! i) (kc_id (build_knowledge_card e ((doc # docs) ! i)))
             chunk overlap = Some ((cs # css) ! i)"
  proof (intro allI impI)
    fix i assume "i < length (doc # docs)"
    then show "chunk_doc ((doc # docs) ! i) (kc_id (build_knowledge_card e ((doc # docs) ! i)))
             chunk overlap = Some ((cs # css) ! i)"
      using cs a(4) by (cases i) simp_all
  qed
  have "length (cs # css) = length (doc # docs)
        \<and> (\<forall>i<length (doc # docs).
           chunk_doc ((doc # docs) ! i) (kc_id (build_knowledge_card e ((doc # docs) ! i)))
             chunk overlap = Some ((cs # css) ! i))
        \<and> st_all_chunks st' = st_all_chunks st @ concat (cs # css)"
    using a(3) a(5) b by simp
  then have "\<exists>css. length css = length (doc # docs)
        \<and> (\<forall>i<length (doc # docs).
           chunk_doc ((doc # docs) ! i) (kc_id (build_knowledge_card e ((doc # docs) ! i)))
             chunk overlap = Some (css ! i))
        \<and> st_all_chunks st' = st_all_chunks st @ concat css"
    by (rule exI[where x = "cs # css"])
  with a(1) a(2) show ?case by simp
qed

lemma build_returns:
  assumes "overlap < chunk"
  shows "\<exists>out. build e files walk chunk overlap = Some out"
proof -
  from build_loop_returns[OF assms] obtain st' where
    "build_loop e chunk overlap (load_folder files walk)
       \<lparr>st_cards = [], st_all_chunks = [], st_skipped_files = []\<rparr> = Some st'" by blast
  then show ?thesis by (simp add: build_def Let_def)
qed

lemma build_result:
  assumes "build e files walk chunk overlap = Some out"
  shows "out_cards out = map (build_knowledge_card e) (load_folder files walk)"
    and "m_skipped_files (out_manifest out) = []"
    and "m_total_documents (out_manifest out) = length (load_folder files walk)"
    and "m_total_cards (out_manifest out) = length (out_cards out)"
    and "m_total_chunks (out_manifest out) = length (out_chunks out)"
proof -
  let ?st0 = "\<lparr>st_cards = [], st_all_chunks = [], st_skipped_files = []\<rparr>"
  from assms obtain st' where
    l: "build_loop e chunk overlap (load_folder files walk) ?st0 = Some st'"
    and out: "out = \<lparr>out_cards = st_cards st', out_chunks = st_all_chunks st',
                     out_manifest = write_manifest (load_folder files walk) (st_cards st')
                                      (st_all_chunks st') (st_skipped_files st')\<rparr>"
    by (cases "build_loop e chunk overlap (load_folder files walk) ?st0")
       (auto simp: build_def Let_def)
  from build_loop_result[OF l] have
    r: "st_cards st' = map (build_knowledge_card e) (load_folder files walk)"
       "st_skipped_files st' = []"
    by simp_all
  show "out_cards out = map (build_knowledge_card e) (load_folder files walk)"
    using out r by simp
  show "m_skipped_files (out_manifest out) = []"
    using out r by (simp add: write_manifest_def)
  show "m_total_documents (out_manifest out) = length (load_folder files walk)"
    using out by (simp add: write_manifest_def)
  show "m_total_cards (out_manifest out) = length (out_cards out)"
    using out by (simp add: write_manifest_def)
  show "m_total_chunks (out_manifest out) = length (out_chunks out)"
    using out by (simp add: write_manifest_def)
qed

text \<open>
  C4, as the code has it. Neither \<open>build\<close> nor \<open>chunk_doc\<close> checks the configuration.
  Chunk production returns for every text whenever \<open>overlap < size\<close>, for one document and for a
  whole folder.
\<close>

theorem chunking_terminates:
  assumes "overlap < sz"
  shows "(\<exists>cs. chunk_doc doc did sz overlap = Some cs)
       \<and> (\<exists>out. build e files walk sz overlap = Some out)"
  using chunk_doc_returns[OF assms] build_returns[OF assms] by blast

text \<open>The theorem at the default configuration, chunk size 800 and overlap 120.\<close>

theorem chunking_terminates_witness:
  "(120::int) < 800
   \<and> (\<exists>cs. chunk_doc three_words_doc ''d0'' 800 120 = Some cs)
   \<and> (\<exists>out. build example_env example_fs (Some [''/in/abc.txt'']) 800 120 = Some out)"
proof -
  have h: "(120::int) < 800" by simp
  from chunking_terminates[OF h] h show ?thesis by blast
qed

text \<open>
  C4 as stated fails: the configuration with chunk size 2 and overlap 2 is neither rejected nor
  clamped, and on a document of three words neither \<open>chunk_doc\<close> nor \<open>build\<close> returns.
\<close>

theorem overlap_not_validated_counterexample:
  "chunk_doc three_words_doc ''d0'' 2 2 = None
   \<and> build example_env example_fs (Some [''/in/abc.txt'']) 2 2 = None"
proof -
  have d: "chunk_doc three_words_doc did 2 2 = None" for did
  proof -
    have "chunk_loop [''a'', ''b'', ''c''] did ''/in/abc.txt'' 2 2 0 1 [] = None"
      by (rule chunk_loop_diverges) simp_all
    then show ?thesis
      by (simp add: chunk_doc_def three_words_doc_def py_split_three_words)
  qed
  then have "build example_env example_fs (Some [''/in/abc.txt'']) 2 2 = None"
    by (simp add: build_def load_one Let_def)
  with d show ?thesis by simp
qed

lemma process_folder_manifest:
  "pm_total_chunks (po_manifest (process_folder files globbed now))
     = length (po_chunks (process_folder files globbed now))
   \<and> pm_total_cards (po_manifest (process_folder files globbed now))
     = length (po_cards (process_folder files globbed now))
   \<and> pm_total_documents (po_manifest (process_folder files globbed now))
     = length (po_cards (process_folder files globbed now))"
  by (simp add: process_folder_def write_manifest_processors_def Let_def)

text \<open>
  C8. When \<open>build\<close> returns, the manifest's \<open>total_chunks\<close> is the number of chunk records
  written and \<open>total_cards\<close> is at most \<open>total_documents\<close>; the same holds for the manifest of
  \<open>process_folder\<close>.
\<close>

theorem manifest_consistent:
  "(\<forall>out. build e files walk chunk overlap = Some out \<longrightarrow>
       m_total_chunks (out_manifest out) = length (out_chunks out)
       \<and> m_total_cards (out_manifest out) = length (out_cards out)
       \<and> m_total_cards (out_manifest out) \<le> m_total_documents (out_manifest out))
   \<and> pm_total_chunks (po_manifest (process_folder files globbed now))
       = length (po_chunks (process_folder files globbed now))
   \<and> pm_total_cards (po_manifest (process_folder files globbed now))
       \<le> pm_total_documents (po_manifest (process_folder files globbed now))"
proof (intro conjI allI impI)
  fix out assume b: "build e files walk chunk overlap = Some out"
  show "m_total_chunks (out_manifest out) = length (out_chunks out)"
    by (rule build_result(5)[OF b])
  show "m_total_cards (out_manifest out) = length (out_cards out)"
    by (rule build_result(4)[OF b])
  show "m_total_cards (out_manifest out) \<le> m_total_documents (out_manifest out)"
    using build_result(1)[OF b] build_result(3)[OF b] build_result(4)[OF b] by simp
next
  show "pm_total_chunks (po_manifest (process_folder files globbed now))
       = length (po_chunks (process_folder files globbed now))"
    using process_folder_manifest by blast
  show "pm_total_cards (po_manifest (process_folder files globbed now))
       \<le> pm_total_documents (po_manifest (process_folder files globbed now))"
    using process_folder_manifest[of files globbed now] by simp
qed

text \<open>The theorem at the example folder with the default configuration.\<close>

theorem manifest_consistent_witness:
  "\<exists>out. build example_env example_fs (Some [''/in/abc.txt'', ''/in/bad.txt'']) 800 120 = Some out
     \<and> m_total_chunks (out_manifest out) = length (out_chunks out)
     \<and> m_total_cards (out_manifest out) \<le> m_total_documents (out_manifest out)"
proof -
  obtain out where
    b: "build example_env example_fs (Some [''/in/abc.txt'', ''/in/bad.txt'']) 800 120 = Some out"
    using build_returns[of 120 800 example_env example_fs
            "Some [''/in/abc.txt'', ''/in/bad.txt'']"] by auto
  with manifest_consistent[of example_env example_fs "Some [''/in/abc.txt'', ''/in/bad.txt'']"
         800 120 "[]" "[]"]
  show ?thesis by blast
qed

lemma concat_singletons: "\<forall>p\<in>set ps. g p = [h p] \<Longrightarrow> concat (map g ps) = map h ps"
  by (induction ps) simp_all

lemma load_folder_txt:
  assumes "\<forall>p\<in>set ps. py_lower (path_suffix p) \<in> TXT_EXT"
  shows "load_folder files (Some ps) = sort_key doc_path (map (read_txt files) ps)"
proof -
  have "\<forall>p\<in>set ps.
          (let file_ext = py_lower (path_suffix p)
           in if file_ext \<in> PDF_EXT then [read_pdf files p]
              else if file_ext \<in> TXT_EXT then [read_txt files p] else [])
          = [read_txt files p]"
    using assms by (auto simp: Let_def PDF_EXT_def TXT_EXT_def)
  then have "concat (map (\<lambda>file_path.
               let file_ext = py_lower (path_suffix file_path)
               in if file_ext \<in> PDF_EXT then [read_pdf files file_path]
                  else if file_ext \<in> TXT_EXT then [read_txt files file_path]
                  else []) ps) = map (read_txt files) ps"
    by (rule concat_singletons)
  then show ?thesis
    unfolding load_folder_def by simp
qed





text \<open>
  C3, as the code has it. In a folder with a readable text file and a text file that cannot
  be decoded, the loader reads the second as a document with the empty text; when
  \<open>overlap < size\<close> the run returns, emits two cards, one of them for the undecodable file, and
  \<open>skipped_files\<close> is empty.
\<close>

theorem build_undecodable_file:
  assumes "set ps = {good, bad}" "distinct ps" "good \<noteq> bad"
    and "py_lower (path_suffix good) \<in> TXT_EXT" "py_lower (path_suffix bad) \<in> TXT_EXT"
    and "files good = Some fg" "f_utf8 fg = Inr content"
    and "files bad = Some fb" "f_utf8 fb = Inl err"
    and "overlap < chunk"
  shows "\<exists>out. build e files (Some ps) chunk overlap = Some out
           \<and> length (out_cards out) = 2
           \<and> m_skipped_files (out_manifest out) = []
           \<and> build_knowledge_card e (read_txt files bad) \<in> set (out_cards out)
           \<and> doc_text (read_txt files bad) = []
           \<and> doc_text (read_txt files good) = content"
proof -
  from build_returns[OF assms(10)] obtain out where
    b: "build e files (Some ps) chunk overlap = Some out" by blast
  have "\<forall>p\<in>set ps. py_lower (path_suffix p) \<in> TXT_EXT" using assms(1,4,5) by simp
  then have lf: "load_folder files (Some ps) = sort_key doc_path (map (read_txt files) ps)"
    by (rule load_folder_txt)
  have cards: "out_cards out = map (build_knowledge_card e) (load_folder files (Some ps))"
    by (rule build_result(1)[OF b])
  have "length ps = card (set ps)" using assms(2) by (simp add: distinct_card)
  also have "\<dots> = 2" using assms(1,3) by simp
  finally have "length (out_cards out) = 2" using cards lf by simp
  moreover have "m_skipped_files (out_manifest out) = []" by (rule build_result(2)[OF b])
  moreover have "build_knowledge_card e (read_txt files bad) \<in> set (out_cards out)"
    using cards lf assms(1) by simp
  moreover have "doc_text (read_txt files bad) = []"
    using assms(8,9) by (simp add: read_txt_def)
  moreover have "doc_text (read_txt files good) = content"
    using assms(6,7) by (simp add: read_txt_def)
  ultimately show ?thesis using b by blast
qed

text \<open>The theorem at the example folder with the default configuration.\<close>

theorem build_undecodable_file_witness:
  "\<exists>out. build example_env example_fs (Some [''/in/abc.txt'', ''/in/bad.txt'']) 800 120 = Some out
     \<and> length (out_cards out) = 2
     \<and> m_skipped_files (out_manifest out) = []
     \<and> doc_text (read_txt example_fs ''/in/bad.txt'') = []"
proof -
  have "\<exists>out. build example_env example_fs (Some [''/in/abc.txt'', ''/in/bad.txt'']) 800 120
                = Some out
           \<and> length (out_cards out) = 2
           \<and> m_skipped_files (out_manifest out) = []
           \<and> build_knowledge_card example_env (read_txt example_fs ''/in/bad.txt'')
               \<in> set (out_cards out)
           \<and> doc_text (read_txt example_fs ''/in/bad.txt'') = []
           \<and> doc_text (read_txt example_fs ''/in/abc.txt'') = ''a b c''"
  proof (rule build_undecodable_file[where fg = good_file and fb = bad_file
            and err = UnicodeDecodeError])
    show "set [''/in/abc.txt'', ''/in/bad.txt''] = {''/in/abc.txt'', ''/in/bad.txt''}" by simp
    show "distinct [''/in/abc.txt'', ''/in/bad.txt'']" by simp
    show "''/in/abc.txt'' \<noteq> ''/in/bad.txt''" by simp
    show "py_lower (path_suffix ''/in/abc.txt'') \<in> TXT_EXT" by (simp add: suffix_abc TXT_EXT_def)
    show "py_lower (path_suffix ''/in/bad.txt'') \<in> TXT_EXT" by (simp add: suffix_bad TXT_EXT_def)
    show "example_fs ''/in/abc.txt'' = Some good_file" by (simp add: example_fs_def)
    show "f_utf8 good_file = Inr ''a b c''" by (simp add: good_file_def)
    show "example_fs ''/in/bad.txt'' = Some bad_file" by (simp add: example_fs_def)
    show "f_utf8 bad_file = Inl UnicodeDecodeError" by (simp add: bad_file_def)
    show "(120::int) < 800" by simp
  qed
  then show ?thesis by blast
qed

text \<open>
  C3 as stated fails: on the example folder the run returns with two cards, not one, and
  \<open>skipped_files\<close> does not list the file that cannot be decoded.
\<close>

theorem skip_isolation_counterexample:
  "f_utf8 bad_file = Inl UnicodeDecodeError
   \<and> build example_env example_fs (Some [''/in/abc.txt'', ''/in/bad.txt'']) 800 120 \<noteq> None
   \<and> length (out_cards (the (build example_env example_fs
                                 (Some [''/in/abc.txt'', ''/in/bad.txt'']) 800 120))) \<noteq> 1
   \<and> ''/in/bad.txt'' \<notin> set (m_skipped_files (out_manifest (the (build example_env example_fs
                                 (Some [''/in/abc.txt'', ''/in/bad.txt'']) 800 120))))"
proof -
  obtain out where
    b: "build example_env example_fs (Some [''/in/abc.txt'', ''/in/bad.txt'']) 800 120 = Some out"
    using build_returns[of 120 800 example_env example_fs
            "Some [''/in/abc.txt'', ''/in/bad.txt'']"] by auto
  have "\<forall>p\<in>set [''/in/abc.txt'', ''/in/bad.txt'']. py_lower (path_suffix p) \<in> TXT_EXT"
    by (simp add: suffix_abc suffix_bad TXT_EXT_def)
  then have "load_folder example_fs (Some [''/in/abc.txt'', ''/in/bad.txt''])
      = sort_key doc_path (map (read_txt example_fs) [''/in/abc.txt'', ''/in/bad.txt''])"
    by (rule load_folder_txt)
  then have "length (load_folder example_fs (Some [''/in/abc.txt'', ''/in/bad.txt''])) = 2"
    by simp
  with build_result(1)[OF b] have "length (out_cards out) = 2" by simp
  moreover have "m_skipped_files (out_manifest out) = []" by (rule build_result(2)[OF b])
  ultimately show ?thesis using b by (simp add: bad_file_def)
qed

section \<open>Facts\<close>

lemma py_slice_take: "0 \<le> n \<Longrightarrow> py_slice xs 0 n = take (nat n) xs"
  by (simp add: py_slice_def Let_def min_def)

lemma prefix_take: "prefix xs ys \<Longrightarrow> length xs \<le> n \<Longrightarrow> prefix xs (take n ys)"
  by (auto simp: prefix_def)

lemma filter_take_prefix: "prefix (filter P (take n xs)) (filter P xs)"
proof -
  have "filter P xs = filter P (take n xs) @ filter P (drop n xs)"
    by (metis append_take_drop_id filter_append)
  then show ?thesis by (simp add: prefix_def)
qed

lemma long_nonempty:
  "filter (\<lambda>s. 20 < length s) (filter (\<lambda>s. s \<noteq> []) xs) = filter (\<lambda>s. 20 < length s) xs"
  by (induction xs) auto

lemma extract_facts_take:
  "extract_facts text 5 =
     filter (\<lambda>s. 20 < length s)
       (take 5 (filter (\<lambda>s. s \<noteq> []) (map py_strip (py_split_char CHR ''.'' text))))"
  by (simp add: extract_facts_def py_slice_take)

lemma spec_facts_nonempty:
  "spec_facts text =
     take 5 (filter (\<lambda>s. 20 < length s)
       (filter (\<lambda>s. s \<noteq> []) (map py_strip (py_split_char CHR ''.'' text))))"
  unfolding spec_facts_def by (simp only: long_nonempty)

lemma take_filter_all:
  assumes "\<forall>s\<in>set (take n xs). P s"
  shows "take n (filter P xs) = take n xs"
proof -
  have "filter P xs = take n xs @ filter P (drop n xs)"
    using assms by (metis append_take_drop_id filter_append filter_True)
  moreover have "length (take n xs) = n \<or> drop n xs = []"
    by (cases "n \<le> length xs") simp_all
  ultimately show ?thesis by auto
qed

text \<open>
  C2, as the code has it. \<open>extract_facts\<close> with the default bound, and the same lines of
  \<open>build_knowledge_card\<close>, first keep the first 5 trimmed sentences that are not empty and then
  drop those of at most 20 characters. The result has at most 5 elements and is a prefix of the
  list that the specification describes; the two are equal when each of these first sentences
  is longer than 20 characters.
\<close>

theorem extract_facts_rule:
  "extract_facts text 5 =
     filter (\<lambda>s. 20 < length s)
       (take 5 (filter (\<lambda>s. s \<noteq> []) (map py_strip (py_split_char CHR ''.'' text))))
   \<and> kc_facts (build_knowledge_card e doc) = extract_facts (doc_text doc) 5
   \<and> length (extract_facts text 5) \<le> 5
   \<and> prefix (extract_facts text 5) (spec_facts text)
   \<and> ((\<forall>s\<in>set (take 5 (filter (\<lambda>s. s \<noteq> []) (map py_strip (py_split_char CHR ''.'' text)))).
          20 < length s)
       \<longrightarrow> extract_facts text 5 = spec_facts text)"
proof -
  let ?S = "filter (\<lambda>s. s \<noteq> []) (map py_strip (py_split_char CHR ''.'' text))"
  let ?long = "\<lambda>s::string. 20 < length s"
  have a: "extract_facts text 5 = filter ?long (take 5 ?S)" by (rule extract_facts_take)
  have b: "kc_facts (build_knowledge_card e doc) = extract_facts (doc_text doc) 5"
    by (simp add: extract_facts_take build_knowledge_card_def Let_def)
  have "length (filter ?long (take 5 ?S)) \<le> length (take 5 ?S)" by (rule length_filter_le)
  then have c: "length (extract_facts text 5) \<le> 5" unfolding a by simp
  have s: "spec_facts text = take 5 (filter ?long ?S)" by (rule spec_facts_nonempty)
  have "prefix (filter ?long (take 5 ?S)) (filter ?long ?S)" by (rule filter_take_prefix)
  then have d: "prefix (extract_facts text 5) (spec_facts text)"
    unfolding s using c a by (simp add: prefix_take)
  have f: "extract_facts text 5 = spec_facts text" if h: "\<forall>s\<in>set (take 5 ?S). 20 < length s"
  proof -
    from h have "filter ?long (take 5 ?S) = take 5 ?S" by simp
    moreover from h have "take 5 (filter ?long ?S) = take 5 ?S" by (rule take_filter_all)
    ultimately show ?thesis unfolding a s by simp
  qed
  from a b c d f show ?thesis by blast
qed

text \<open>The theorem at a text of two sentences, both longer than 20 characters.\<close>

theorem extract_facts_rule_witness:
  "take 5 (filter (\<lambda>s. s \<noteq> []) (map py_strip (py_split_char CHR ''.'' two_sentences)))
     = [''Machine Learning (ML) is a subset of AI'', ''It uses algorithms to learn patterns'']
   \<and> 20 < length ''Machine Learning (ML) is a subset of AI''
   \<and> 20 < length ''It uses algorithms to learn patterns''
   \<and> extract_facts two_sentences 5 = spec_facts two_sentences
   \<and> extract_facts two_sentences 5 =
       [''Machine Learning (ML) is a subset of AI'', ''It uses algorithms to learn patterns'']"
proof -
  have s: "filter (\<lambda>s. s \<noteq> []) (map py_strip (py_split_char CHR ''.'' two_sentences))
           = [''Machine Learning (ML) is a subset of AI'', ''It uses algorithms to learn patterns'']"
    by (simp add: two_sentences_def py_split_char_def py_strip_def py_isspace_def)
  then have h: "\<forall>s\<in>set (take 5 (filter (\<lambda>s. s \<noteq> [])
                         (map py_strip (py_split_char CHR ''.'' two_sentences)))).
       20 < length s"
    by simp
  from extract_facts_rule[of two_sentences example_env three_words_doc] h
  have e: "extract_facts two_sentences 5 = spec_facts two_sentences" by blast
  have "extract_facts two_sentences 5 =
     filter (\<lambda>s. 20 < length s)
       (take 5 (filter (\<lambda>s. s \<noteq> []) (map py_strip (py_split_char CHR ''.'' two_sentences))))"
    by (rule extract_facts_rule[of two_sentences example_env three_words_doc, THEN conjunct1])
  then have f: "extract_facts two_sentences 5 =
       [''Machine Learning (ML) is a subset of AI'', ''It uses algorithms to learn patterns'']"
    unfolding s by simp
  have t: "take 5 (filter (\<lambda>s. s \<noteq> []) (map py_strip (py_split_char CHR ''.'' two_sentences)))
     = [''Machine Learning (ML) is a subset of AI'', ''It uses algorithms to learn patterns'']"
    unfolding s by simp
  show ?thesis
  proof (intro conjI)
    show "take 5 (filter (\<lambda>s. s \<noteq> []) (map py_strip (py_split_char CHR ''.'' two_sentences)))
     = [''Machine Learning (ML) is a subset of AI'', ''It uses algorithms to learn patterns'']"
      by (rule t)
    show "20 < length ''Machine Learning (ML) is a subset of AI''" by simp
    show "20 < length ''It uses algorithms to learn patterns''" by simp
    show "extract_facts two_sentences 5 = spec_facts two_sentences" by (rule e)
    show "extract_facts two_sentences 5 =
       [''Machine Learning (ML) is a subset of AI'', ''It uses algorithms to learn patterns'']"
      by (rule f)
  qed
qed

text \<open>
  C2 as stated fails: after five short sentences a long one is not extracted, though it is the
  first sentence of more than 20 characters.
\<close>

theorem extract_facts_counterexample:
  "extract_facts short_sentences 5 = []
   \<and> spec_facts short_sentences = [''This sentence is longer than twenty chars'']"
  by (simp add: extract_facts_def spec_facts_def short_sentences_def py_split_char_def
      py_strip_def py_isspace_def py_slice_def)

section \<open>Citations\<close>

text \<open>
  C6, as the code has it. The card has one citation, with the card's id. Its excerpt is the
  text itself when the text has at most 200 characters; otherwise it is the first 200
  characters followed by the three-character marker \<open>...\<close>, 203 characters in all.
\<close>

theorem citation_excerpt:
  "\<exists>c. kc_citations (build_knowledge_card e doc) = [c]
       \<and> ci_doc_id c = kc_id (build_knowledge_card e doc)
       \<and> (length (doc_text doc) \<le> 200 \<longrightarrow> ci_text_excerpt c = doc_text doc)
       \<and> (200 < length (doc_text doc) \<longrightarrow>
            ci_text_excerpt c = take 200 (doc_text doc) @ ''...''
            \<and> length (ci_text_excerpt c) = 203)
       \<and> length (ci_text_excerpt c) \<le> 203"
  by (simp add: build_knowledge_card_def Let_def)

text \<open>The theorem at a text of 5 characters and at a text of 201 characters.\<close>

theorem citation_excerpt_witness:
  "length (doc_text three_words_doc) \<le> 200
   \<and> map ci_text_excerpt (kc_citations (build_knowledge_card example_env three_words_doc))
       = [''a b c'']
   \<and> 200 < length (doc_text long_doc)
   \<and> map ci_text_excerpt (kc_citations (build_knowledge_card example_env long_doc))
       = [replicate 200 CHR ''x'' @ ''...'']"
proof -
  have h1: "length (doc_text three_words_doc) \<le> 200" by (simp add: three_words_doc_def)
  have h2: "200 < length (doc_text long_doc)" by (simp add: long_doc_def)
  from citation_excerpt[of example_env three_words_doc] h1
  have a: "map ci_text_excerpt (kc_citations (build_knowledge_card example_env three_words_doc))
       = [''a b c'']"
    by (auto simp: three_words_doc_def)
  from citation_excerpt[of example_env long_doc] h2
  have b: "map ci_text_excerpt (kc_citations (build_knowledge_card example_env long_doc))
       = [replicate 200 CHR ''x'' @ ''...'']"
    by (auto simp: long_doc_def)
  from h1 h2 a b show ?thesis by blast
qed

text \<open>C6 as stated fails: for a text of 201 characters the excerpt has 203 characters.\<close>

theorem citation_excerpt_counterexample:
  "length (doc_text long_doc) = 201
   \<and> length (ci_text_excerpt (hd (kc_citations (build_knowledge_card example_env long_doc))))
       = 203"
  by (simp add: build_knowledge_card_def long_doc_def Let_def)

section \<open>Determinism\<close>

lemma mset_concat_map_cong:
  "mset ps1 = mset ps2 \<Longrightarrow> mset (concat (map G ps1)) = mset (concat (map G ps2))"
proof -
  assume a: "mset ps1 = mset ps2"
  have "mset (concat (map G ps)) = sum_mset (image_mset (\<lambda>p. mset (G p)) (mset ps))" for ps
    by (induction ps) simp_all
  with a show ?thesis by simp
qed

lemma filter_key_inj:
  assumes "inj_on f (set zs)" "k \<in> set zs"
  shows "filter (\<lambda>x. f k = f x) zs = replicate (count (mset zs) k) k"
proof -
  have "filter (\<lambda>x. f k = f x) zs = filter (\<lambda>x. k = x) zs"
    using assms by (intro filter_cong refl) (auto dest: inj_onD)
  also have "\<dots> = replicate (count (mset zs) k) k"
    by (induction zs) auto
  finally show ?thesis .
qed

lemma sort_key_mset_eq:
  assumes "mset xs1 = mset xs2" "inj_on f (set xs1)"
  shows "sort_key f xs1 = sort_key f xs2"
proof (rule properties_for_sort_key)
  show "mset (sort_key f xs2) = mset xs1" using assms(1) by simp
  show "sorted (map f (sort_key f xs2))" by simp
next
  fix k assume "k \<in> set (sort_key f xs2)"
  then have k2: "k \<in> set xs2" by simp
  from assms(1) have s: "set xs1 = set xs2" by (rule mset_eq_setD)
  with k2 have k1: "k \<in> set xs1" by simp
  have i2: "inj_on f (set (sort_key f xs2))" using assms(2) s by simp
  have "filter (\<lambda>x. f k = f x) (sort_key f xs2)
        = replicate (count (mset (sort_key f xs2)) k) k"
    using i2 by (rule filter_key_inj) (simp add: k2)
  moreover have "filter (\<lambda>x. f k = f x) xs1 = replicate (count (mset xs1) k) k"
    using assms(2) k1 by (rule filter_key_inj)
  ultimately show "filter (\<lambda>x. f k = f x) (sort_key f xs2) = filter (\<lambda>x. f k = f x) xs1"
    using assms(1) by simp
qed

lemma read_paths: "doc_path (read_txt files p) = p" "doc_path (read_pdf files p) = p"
  by (simp_all add: read_txt_def read_pdf_def Let_def split: option.splits sum.splits prod.splits)

lemma load_folder_order:
  assumes "mset ps1 = mset ps2"
  shows "load_folder files (Some ps1) = load_folder files (Some ps2)"
proof -
  let ?G = "\<lambda>file_path.
               let file_ext = py_lower (path_suffix file_path)
               in if file_ext \<in> PDF_EXT then [read_pdf files file_path]
                  else if file_ext \<in> TXT_EXT then [read_txt files file_path]
                  else []"
  have m: "mset (concat (map ?G ps1)) = mset (concat (map ?G ps2))"
    using assms by (rule mset_concat_map_cong)
  have g: "d \<in> set (?G p) \<Longrightarrow> doc_path d = p \<and> ?G p = [d]" for d p
    by (auto simp: Let_def read_paths split: if_splits)
  have "inj_on doc_path (set (concat (map ?G ps1)))"
  proof (rule inj_onI)
    fix x y
    assume x: "x \<in> set (concat (map ?G ps1))" and y: "y \<in> set (concat (map ?G ps1))"
      and e: "doc_path x = doc_path y"
    from x obtain p where p: "x \<in> set (?G p)" by auto
    from y obtain q where q: "y \<in> set (?G q)" by auto
    from g[OF p] have xp: "doc_path x = p" "?G p = [x]" by blast+
    from g[OF q] have yq: "doc_path y = q" "?G q = [y]" by blast+
    from xp(1) yq(1) e have "p = q" by simp
    then have "?G p = ?G q" by (rule arg_cong)
    then have "[x] = [y]" unfolding xp(2) yq(2) .
    then show "x = y" by (rule list.inject[THEN iffD1, THEN conjunct1])
  qed
  with m have "sort_key doc_path (concat (map ?G ps1)) = sort_key doc_path (concat (map ?G ps2))"
    by (rule sort_key_mset_eq)
  then show ?thesis by (simp add: load_folder_def)
qed

lemma sort_order: "mset xs = mset ys \<Longrightarrow> sort xs = sort (ys :: string list)"
  by (rule properties_for_sort) simp_all

text \<open>
  C7. Two runs over the same files, which may enumerate them in different orders and, for
  \<open>process_folder\<close>, read different clocks, produce the same output: \<open>build\<close> returns the
  same cards, chunks and manifest, hence the same document and chunk ids; \<open>process_folder\<close>
  returns the same document ids, chunk ids and manifest checksums.
\<close>

theorem two_run_determinism:
  assumes "mset ps1 = mset ps2" and "mset globbed1 = mset globbed2"
  shows "build e files (Some ps1) chunk overlap = build e files (Some ps2) chunk overlap
       \<and> map kc_id (po_cards (process_folder files globbed1 now1))
           = map kc_id (po_cards (process_folder files globbed2 now2))
       \<and> map ch_id (po_chunks (process_folder files globbed1 now1))
           = map ch_id (po_chunks (process_folder files globbed2 now2))
       \<and> pm_checksums (po_manifest (process_folder files globbed1 now1))
           = pm_checksums (po_manifest (process_folder files globbed2 now2))"
proof -
  have "load_folder files (Some ps1) = load_folder files (Some ps2)"
    using assms(1) by (rule load_folder_order)
  then have a: "build e files (Some ps1) chunk overlap = build e files (Some ps2) chunk overlap"
    by (simp add: build_def)
  have s: "sort globbed1 = sort globbed2" using assms(2) by (rule sort_order)
  have b: "po_cards (process_folder files globbed1 now1)
           = po_cards (process_folder files globbed2 now2)"
    by (simp add: process_folder_def Let_def s)
  have c: "po_chunks (process_folder files globbed1 now1)
           = po_chunks (process_folder files globbed2 now2)"
    by (simp add: process_folder_def Let_def s)
  have d: "pm_checksums (po_manifest (process_folder files globbed1 now1))
           = pm_checksums (po_manifest (process_folder files globbed2 now2))"
    by (simp add: process_folder_def write_manifest_processors_def Let_def s)
  from a b c d show ?thesis by simp
qed

text \<open>The theorem at the example folder, enumerated in both orders, with two clock readings.\<close>

theorem two_run_determinism_witness:
  "mset [''/in/abc.txt'', ''/in/bad.txt''] = mset [''/in/bad.txt'', ''/in/abc.txt'']
   \<and> build example_env example_fs (Some [''/in/abc.txt'', ''/in/bad.txt'']) 800 120
       = build example_env example_fs (Some [''/in/bad.txt'', ''/in/abc.txt'']) 800 120
   \<and> map kc_id (po_cards (process_folder example_fs [''/in/abc.txt'', ''/in/bad.txt'']
                             ''2026-01-01T00:00:00''))
       = map kc_id (po_cards (process_folder example_fs [''/in/bad.txt'', ''/in/abc.txt'']
                               ''2026-01-02T00:00:00''))
   \<and> pm_checksums (po_manifest (process_folder example_fs [''/in/abc.txt'', ''/in/bad.txt'']
                                   ''2026-01-01T00:00:00''))
       = pm_checksums (po_manifest (process_folder example_fs [''/in/bad.txt'', ''/in/abc.txt'']
                                     ''2026-01-02T00:00:00''))"
proof -
  have h: "mset [''/in/abc.txt'', ''/in/bad.txt''] = mset [''/in/bad.txt'', ''/in/abc.txt'']"
    by (simp add: add_mset_commute)
  from two_run_determinism[OF h h, of example_env example_fs 800 120
         "''2026-01-01T00:00:00''" "''2026-01-02T00:00:00''"] h
  show ?thesis by blast
qed

section \<open>Document ids\<close>

lemma hex_digit_hex: "hex_digit n \<in> set ''0123456789abcdef''"
proof -
  have "n mod 16 < length ''0123456789abcdef''" by simp
  then show ?thesis unfolding hex_digit_def by (rule nth_mem)
qed

lemma hex32_props: "length (hex32 w) = 8" "set (hex32 w) \<subseteq> set ''0123456789abcdef''"
proof -
  show "length (hex32 w) = 8" by (simp add: hex32_def)
  show "set (hex32 w) \<subseteq> set ''0123456789abcdef''"
    unfolding hex32_def using hex_digit_hex by auto
qed

lemma sha1_bytes_props:
  "length (sha1_bytes m) = 40" "set (sha1_bytes m) \<subseteq> set ''0123456789abcdef''"
proof -
  obtain h0 h1 h2 h3 h4 where
    h: "foldl sha1_block (0x67452301, 0xEFCDAB89, 0x98BADCFE, 0x10325476, 0xC3D2E1F0)
          (chop 64 (sha1_pad m)) = (h0, h1, h2, h3, h4)"
    by (metis prod_cases5)
  then have s: "sha1_bytes m = hex32 h0 @ hex32 h1 @ hex32 h2 @ hex32 h3 @ hex32 h4"
    by (simp add: sha1_bytes_def)
  show "length (sha1_bytes m) = 40" unfolding s by (simp add: hex32_props(1))
  show "set (sha1_bytes m) \<subseteq> set ''0123456789abcdef''"
    unfolding s set_append using hex32_props(2)[of h0] hex32_props(2)[of h1]
      hex32_props(2)[of h2] hex32_props(2)[of h3] hex32_props(2)[of h4] by blast
qed



lemma path_parts_clean: "set (path_parts p) \<inter> {[], ''.''} = {}"
  by (auto simp: path_parts_def)

lemma resolve_parts_clean:
  "set base \<inter> {[], ''.'', ''..''} = {} \<Longrightarrow> set parts \<inter> {[], ''.''} = {}
     \<Longrightarrow> set (resolve_parts base parts) \<inter> {[], ''.'', ''..''} = {}"
proof (induction parts arbitrary: base)
  case Nil
  then show ?case by (simp add: resolve_parts_def)
next
  case (Cons c cs)
  let ?b = "if c = ''..'' then butlast base else base @ [c]"
  have r: "resolve_parts base (c # cs) = resolve_parts ?b cs"
    by (simp add: resolve_parts_def)
  have "set (butlast base) \<subseteq> set base" by (auto dest: in_set_butlastD)
  with Cons.prems have "set ?b \<inter> {[], ''.'', ''..''} = {}" by auto
  moreover from Cons.prems(2) have "set cs \<inter> {[], ''.''} = {}" by auto
  ultimately show ?case unfolding r by (rule Cons.IH)
qed

lemma canon_normal:
  "\<exists>cs. canon e p = CHR ''/'' # py_join ''/'' cs \<and> set cs \<inter> {[], ''.'', ''..''} = {}"
proof -
  have b: "set (resolve_parts [] (path_parts (cwd e))) \<inter> {[], ''.'', ''..''} = {}"
    by (rule resolve_parts_clean) (simp_all add: path_parts_clean)
  let ?base = "if p \<noteq> [] \<and> hd p = CHR ''/'' then [] else resolve_parts [] (path_parts (cwd e))"
  have "set ?base \<inter> {[], ''.'', ''..''} = {}" using b by simp
  then have "set (resolve_parts ?base (path_parts p)) \<inter> {[], ''.'', ''..''} = {}"
    by (rule resolve_parts_clean) (rule path_parts_clean)
  moreover have "canon e p = CHR ''/'' # py_join ''/'' (resolve_parts ?base (path_parts p))"
    by (simp add: canon_def Let_def)
  ultimately show ?thesis by blast
qed


text \<open>
  C1, as the code has it. In \<open>build_knowledge_card\<close> the document id is the SHA-1 digest of
  the canonical path, a colon and the decimal size of the file in bytes; no checksum of the
  content enters. \<open>generate_doc_id\<close> hashes the path it is given, a colon and the checksum. Both
  ids have 40 characters, all of them hexadecimal digits. The canonical path is absolute and
  has no empty, \<open>.\<close> or \<open>..\<close> component.
\<close>

theorem document_id:
  "kc_id (build_knowledge_card e doc)
     = sha1 (canon e (doc_path doc) @ '':'' @ show_nat (doc_bytes doc))
   \<and> generate_doc_id source_path checksum = sha1 (source_path @ '':'' @ checksum)
   \<and> length (kc_id (build_knowledge_card e doc)) = 40
   \<and> set (kc_id (build_knowledge_card e doc)) \<subseteq> set ''0123456789abcdef''
   \<and> length (generate_doc_id source_path checksum) = 40
   \<and> set (generate_doc_id source_path checksum) \<subseteq> set ''0123456789abcdef''
   \<and> (\<exists>cs. canon e (doc_path doc) = CHR ''/'' # py_join ''/'' cs
            \<and> set cs \<inter> {[], ''.'', ''..''} = {})"
proof -
  have a: "kc_id (build_knowledge_card e doc)
     = sha1 (canon e (doc_path doc) @ '':'' @ show_nat (doc_bytes doc))"
    by (simp add: build_knowledge_card_def Let_def)
  have b: "generate_doc_id source_path checksum = sha1 (source_path @ '':'' @ checksum)"
    by (simp add: generate_doc_id_def)
  have l: "length (sha1 s) = 40" "set (sha1 s) \<subseteq> set ''0123456789abcdef''" for s
    unfolding sha1_def by (rule sha1_bytes_props)+
  show ?thesis
  proof (intro conjI)
    show "kc_id (build_knowledge_card e doc)
       = sha1 (canon e (doc_path doc) @ '':'' @ show_nat (doc_bytes doc))" by (rule a)
    show "generate_doc_id source_path checksum = sha1 (source_path @ '':'' @ checksum)"
      by (rule b)
    show "length (kc_id (build_knowledge_card e doc)) = 40" unfolding a by (rule l(1))
    show "set (kc_id (build_knowledge_card e doc)) \<subseteq> set ''0123456789abcdef''"
      unfolding a by (rule l(2))
    show "length (generate_doc_id source_path checksum) = 40" unfolding b by (rule l(1))
    show "set (generate_doc_id source_path checksum) \<subseteq> set ''0123456789abcdef''"
      unfolding b by (rule l(2))
    show "\<exists>cs. canon e (doc_path doc) = CHR ''/'' # py_join ''/'' cs
            \<and> set cs \<inter> {[], ''.'', ''..''} = {}"
      by (rule canon_normal)
  qed
qed

lemma canon_abc: "canon example_env ''/in/abc.txt'' = ''/in/abc.txt''"
  by (simp add: canon_def path_parts_def py_split_char_def resolve_parts_def Let_def)

lemma canon_relative: "canon example_env ''docs/../in/./abc.txt'' = ''/work/in/abc.txt''"
  by (simp add: canon_def path_parts_def py_split_char_def resolve_parts_def Let_def
      example_env_def)

lemma show_nat_5: "show_nat 5 = ''5''"
  by (simp add: show_nat.simps digit_char_def)

lemma utf8_abc: "utf8_encode ''/in/abc.txt:5''
   = [47, 105, 110, 47, 97, 98, 99, 46, 116, 120, 116, 58, 53]"
  by (simp add: utf8_encode_def)

section \<open>Digests of the example inputs\<close>

lemma replicate_num: "replicate (numeral k) x = x # replicate (pred_numeral k) x"
  by (simp add: numeral_eq_Suc)

lemmas sha1_eval = sha1_bytes_def sha1_pad_def be64_def be32_def hex32_def hex_digit_def add32_def
  rotl32_def sha1_f_def sha1_k_def replicate_num sha1_rounds.simps

text \<open>The test vector of the standard whose padded message fills two blocks.\<close>

lemma sha1_two_blocks:
  "sha1_bytes
     [97, 98, 99, 100, 98, 99, 100, 101, 99, 100, 101, 102, 100, 101, 102, 103, 101, 102, 103,
     104, 102, 103, 104, 105, 103, 104, 105, 106, 104, 105, 106, 107, 105, 106, 107, 108, 106,
     107, 108, 109, 107, 108, 109, 110, 108, 109, 110, 111, 109, 110, 111, 112, 110, 111, 112,
     113]
     = ''84983e441c3bd26ebaae4aa1f95129e5e54670f1''"
  by (simp add: sha1_eval)

text \<open>The digests that the example folder needs.\<close>

lemma digest_content: "sha1_bytes [97, 32, 98, 32, 99] = ''6b3f339c67bb03d57a7195cf43ed86b12bfdd347''"
  by (simp add: sha1_eval)

lemma digest_path_size:
  "sha1_bytes [47, 105, 110, 47, 97, 98, 99, 46, 116, 120, 116, 58, 53]
     = ''f1d94ddb3b5c3b371296164969012a4b58f6219d''"
  by (simp add: sha1_eval)

lemma digest_path_checksum:
  "sha1_bytes
     [47, 105, 110, 47, 97, 98, 99, 46, 116, 120, 116, 58, 54, 98, 51, 102, 51, 51, 57, 99, 54, 55, 98, 98, 48, 51, 100, 53, 55, 97, 55, 49, 57, 53, 99, 102, 52, 51, 101, 100, 56, 54, 98, 49, 50, 98, 102, 100, 100, 51, 52, 55]
     = ''d44e11f9d29265cae49c3f5c13cee5ddcfb9127e''"
  by (simp add: sha1_eval)

text \<open>
  C1 as stated fails. The file \<open>/in/abc.txt\<close> holds the five bytes of \<open>a b c\<close>; its content
  checksum, the id that \<open>build_knowledge_card\<close> gives its document, which is the digest of
  \<open>/in/abc.txt:5\<close>, and the digest of the canonical path, a colon and the checksum are
  three different strings.
\<close>

theorem document_id_counterexample:
  "calculate_checksum example_fs ''/in/abc.txt'' = Inr ''6b3f339c67bb03d57a7195cf43ed86b12bfdd347''
   \<and> kc_id (build_knowledge_card example_env (read_txt example_fs ''/in/abc.txt''))
       = ''f1d94ddb3b5c3b371296164969012a4b58f6219d''
   \<and> generate_doc_id (canon example_env ''/in/abc.txt'') ''6b3f339c67bb03d57a7195cf43ed86b12bfdd347''
       = ''d44e11f9d29265cae49c3f5c13cee5ddcfb9127e''
   \<and> kc_id (build_knowledge_card example_env (read_txt example_fs ''/in/abc.txt''))
       \<noteq> generate_doc_id (canon example_env ''/in/abc.txt'')
           ''6b3f339c67bb03d57a7195cf43ed86b12bfdd347''"
proof -
  have a: "calculate_checksum example_fs ''/in/abc.txt'' = Inr ''6b3f339c67bb03d57a7195cf43ed86b12bfdd347''"
    by (simp add: calculate_checksum_def example_fs_def good_file_def digest_content)
  have "kc_id (build_knowledge_card example_env (read_txt example_fs ''/in/abc.txt''))
        = sha1 ''/in/abc.txt:5''"
    by (simp add: build_knowledge_card_def read_abc three_words_doc_def canon_abc show_nat_5
        Let_def)
  also have "\<dots> = ''f1d94ddb3b5c3b371296164969012a4b58f6219d''"
    unfolding sha1_def utf8_abc by (rule digest_path_size)
  finally have b: "kc_id (build_knowledge_card example_env (read_txt example_fs ''/in/abc.txt''))
        = ''f1d94ddb3b5c3b371296164969012a4b58f6219d''" .
  have u: "utf8_encode ''/in/abc.txt:6b3f339c67bb03d57a7195cf43ed86b12bfdd347''
     = [47, 105, 110, 47, 97, 98, 99, 46, 116, 120, 116, 58, 54, 98, 51, 102, 51, 51, 57, 99, 54, 55, 98, 98, 48, 51, 100, 53, 55, 97, 55, 49, 57, 53, 99, 102, 52, 51, 101, 100, 56, 54, 98, 49, 50, 98, 102, 100, 100, 51, 52, 55]"
    by (simp add: utf8_encode_def)
  have c: "generate_doc_id (canon example_env ''/in/abc.txt'')
             ''6b3f339c67bb03d57a7195cf43ed86b12bfdd347''
           = ''d44e11f9d29265cae49c3f5c13cee5ddcfb9127e''"
    unfolding generate_doc_id_def canon_abc sha1_def
    using u digest_path_checksum by simp
  from a b c show ?thesis by simp
qed

section \<open>The extractors on the example text\<close>

lemma acronyms_two_sentences: "extract_acronyms two_sentences = {''ML'', ''AI''}"
  by (simp add: extract_acronyms_def two_sentences_def scan_acronyms.simps is_upper_def
      is_word_def Let_def)

lemma entities_two_sentences: "extract_entities two_sentences = {''Machine Learning'', ''It''}"
  by (simp add: extract_entities_def two_sentences_def scan_entities.simps cap_groups.simps
      cap_word_def is_upper_def is_lower_def is_word_def py_isspace_def Let_def)

end
